theory Spec2Isabelle
  imports Main "HOL-Library.Multiset"
begin

section \<open>The keyblock data model of g10/key-check.c\<close>

text \<open>
  The file under verification is \<^verbatim>\<open>g10/key-check.c\<close>: the comparator
  \<^verbatim>\<open>sig_comparison\<close> and the checker \<^verbatim>\<open>key_check_all_keysigs\<close>.
  The packet and node types come from \<^verbatim>\<open>packet.h\<close> and \<^verbatim>\<open>keydb.h\<close>,
  which are not part of the sources at hand; the records below hold the fields that
  \<^verbatim>\<open>key-check.c\<close> reads.  Algorithm identifiers, signature classes and key id
  words are unsigned machine values that the code only compares, so they are natural numbers.
  A multi-precision integer of a signature is an unsigned big number, a natural number.
\<close>

type_synonym addr = nat
type_synonym keyid_t = "nat \<times> nat"
type_synonym mpi = nat

record PKT_public_key =
  pk_obj :: addr
  pk_keyid :: keyid_t

record PKT_user_id =
  name :: string

record PKT_signature =
  keyid :: keyid_t
  sig_class :: nat
  pubkey_algo :: nat
  digest_algo :: nat
  timestamp :: nat
  checked :: bool
  valid :: bool
  data :: "mpi list"

datatype packet =
    PKT_PUBLIC_KEY PKT_public_key
  | PKT_PUBLIC_SUBKEY PKT_public_key
  | PKT_USER_ID PKT_user_id
  | PKT_SIGNATURE PKT_signature
  | PKT_OTHER nat

text \<open>
  A keyblock node.  \<open>nextp\<close> is the \<^verbatim>\<open>next\<close> pointer (\<open>None\<close> is
  \<^verbatim>\<open>NULL\<close>).

  Modelled from the spec: the macros \<^verbatim>\<open>is_deleted_kbnode\<close>,
  \<^verbatim>\<open>NODFLG_SELKEY\<close> and \<^verbatim>\<open>NODFLG_SELUID\<close> (keydb.h, keyedit.h) are
  missing from the sources; the spec describes a deleted tombstone flag and the two selection
  flags of a node, so each tested bit is one boolean field.
\<close>

record kbnode =
  nextp :: "addr option"
  pkt :: packet
  deleted :: bool
  sel_key :: bool
  sel_uid :: bool

type_synonym heap = "addr \<Rightarrow> kbnode option"

text \<open>
  The external collaborators of the checker, none of which is in the sources:
  \<^item> \<open>pubkey_get_nsig\<close> (g10/misc.c): the number of signature values of a public-key
    algorithm, a C \<^verbatim>\<open>int\<close>;
  \<^item> \<open>qsort\<close> (libc), given the comparator and the array of node pointers;
  \<^item> \<open>xtrycalloc\<close>: whether allocating an array of the given number of pointers succeeds;
  \<^item> \<open>get_pubkey\<close>: the key of an issuer, \<open>None\<close> when the lookup fails;
  \<^item> \<open>openpgp_pk_test_algo\<close>, \<open>openpgp_md_test_algo\<close>: an error code, 0 when the
    algorithm is supported;
  \<^item> \<open>check_signature_over_key_or_uid\<close>: an error code, 0 when the signature made by
    the issuer verifies over the candidate packet.  Its keyblock argument is represented by
    the primary key of the keyblock.
\<close>

record collab =
  pubkey_get_nsig :: "nat \<Rightarrow> int"
  qsort :: "(addr \<Rightarrow> addr \<Rightarrow> int) \<Rightarrow> addr list \<Rightarrow> addr list"
  xtrycalloc :: "int \<Rightarrow> bool"
  get_pubkey :: "keyid_t \<Rightarrow> PKT_public_key option"
  openpgp_pk_test_algo :: "nat \<Rightarrow> nat"
  openpgp_md_test_algo :: "nat \<Rightarrow> nat"
  check_signature_over_key_or_uid ::
    "PKT_public_key \<Rightarrow> PKT_signature \<Rightarrow> PKT_public_key \<Rightarrow> packet \<Rightarrow> nat"

section \<open>The comparator \<open>sig_comparison\<close>\<close>

text \<open>
  Modelled from the spec: \<^verbatim>\<open>gcry_mpi_cmp\<close> belongs to libgcrypt; the spec calls it
  unsigned big-number comparison.  Only the sign of its result is used.
\<close>

definition gcry_mpi_cmp :: "mpi \<Rightarrow> mpi \<Rightarrow> int" where
  "gcry_mpi_cmp a b = (if a < b then - 1 else if b < a then 1 else 0)"

text \<open>The loop \<^verbatim>\<open>for (i = 0; i < ndataa; i ++)\<close> of lines 64 to 69, from index \<open>i\<close>.\<close>

function sig_comparison_loop :: "mpi list \<Rightarrow> mpi list \<Rightarrow> int \<Rightarrow> int \<Rightarrow> int" where
  "sig_comparison_loop da db ndataa i =
     (if i < ndataa then
        (let c = gcry_mpi_cmp (da ! nat i) (db ! nat i)
         in if c \<noteq> 0 then c else sig_comparison_loop da db ndataa (i + 1))
      else 0)"
  by pat_completeness auto
termination
  by (relation "measure (\<lambda>(da, db, ndataa, i). nat (ndataa - i))") auto

declare sig_comparison_loop.simps [simp del]

definition sig_comparison :: "collab \<Rightarrow> PKT_signature \<Rightarrow> PKT_signature \<Rightarrow> int" where
  "sig_comparison E a b =
     (if digest_algo a < digest_algo b then - 1
      else if digest_algo a > digest_algo b then 1
      else
        (let ndataa = pubkey_get_nsig E (pubkey_algo a);
             ndatab = pubkey_get_nsig E (pubkey_algo b)
         in if ndataa \<noteq> ndatab then (if ndataa < ndatab then - 1 else 1)
            else sig_comparison_loop (data a) (data b) ndataa 0))"

text \<open>
  The array \<^verbatim>\<open>data\<close> of a signature has room for \<^verbatim>\<open>PUBKEY_MAX_NSIG\<close> values; a
  record is well formed when the count of its algorithm stays inside its array, so that
  the loop reads no element out of range.
\<close>

definition wf_sig :: "collab \<Rightarrow> PKT_signature \<Rightarrow> bool" where
  "wf_sig E s = (pubkey_get_nsig E (pubkey_algo s) \<le> int (length (data s)))"

section \<open>Pointers, outcomes and loops\<close>

text \<open>
  \<^verbatim>\<open>log_assert\<close> aborts the process when its condition is false, and reading through
  a pointer that addresses no node is a memory fault; both are outcomes of the model.  A
  pointer to a node pointer (\<^verbatim>\<open>prevp\<close>, \<^verbatim>\<open>n_prevp\<close>) is either the address of
  the local variable \<^verbatim>\<open>kb\<close> or the address of the \<^verbatim>\<open>next\<close> field of a node.
\<close>

datatype error = Assert_failed | Mem_fault

datatype ptrloc = Kb_var | Next_of addr

datatype ('s, 'r) ctl = Next 's | Done 'r

text \<open>
  A C loop is the iteration of its body: the body either hands over the state for the next
  round or leaves the loop with a result.  A body that holds an inner loop may itself not
  return; a loop that runs forever has the value \<open>None\<close>.
\<close>

partial_function (option) loop :: "('s \<Rightarrow> ('s, 'r) ctl option) \<Rightarrow> 's \<Rightarrow> 'r option" where
  "loop step s =
     (case step s of
        None \<Rightarrow> None
      | Some c \<Rightarrow> (case c of Next s' \<Rightarrow> loop step s' | Done r \<Rightarrow> Some r))"

declare loop.simps [code]

definition bind_res :: "(error + 'a) option \<Rightarrow> ('a \<Rightarrow> (error + 'b) option) \<Rightarrow> (error + 'b) option" where
  "bind_res m f = (case m of None \<Rightarrow> None | Some (Inl e) \<Rightarrow> Some (Inl e) | Some (Inr x) \<Rightarrow> f x)"

text \<open>
  Modelled from the spec: \<^verbatim>\<open>keyid_cmp\<close> (keydb.h) is missing from the sources; it
  returns 0 exactly when the two key ids are equal.
\<close>

definition keyid_cmp :: "keyid_t \<Rightarrow> keyid_t \<Rightarrow> int" where
  "keyid_cmp a b = (if a = b then 0 else 1)"

section \<open>The local variables of \<open>key_check_all_keysigs\<close>\<close>

text \<open>
  \<open>issuer\<close> is \<^verbatim>\<open>NULL\<close>, the pointer \<^verbatim>\<open>pk\<close> itself, or a freshly allocated
  key filled in by \<^verbatim>\<open>get_pubkey\<close>; the code compares it with \<^verbatim>\<open>pk\<close> by address.
\<close>

datatype issuer_ptr = Issuer_null | Issuer_pk | Issuer_fetched PKT_public_key

text \<open>
  What the function writes with \<^verbatim>\<open>log_error\<close> and \<^verbatim>\<open>tty_printf\<close> outside the
  per-signature report.  The per-signature report (lines 445 to 530, with
  \<^verbatim>\<open>last_printed_component\<close>, \<^verbatim>\<open>pending_desc\<close> and the debug output under
  \<^verbatim>\<open>DBG_PACKET\<close>) only prints and is left out.
\<close>

datatype message =
    Log_error_allocating_memory
  | Tty_unsupported_pubkey_algo nat
  | Tty_unsupported_digest_algo nat
  | Tty_key_header
  | Tty_duplicates_removed nat
  | Tty_missing_keys nat
  | Tty_bad_signatures nat
  | Tty_reordered nat
  | Tty_warning_only_selfsigs

record locals =
  mem :: heap
  kb :: "addr option"
  n_node :: "addr option"
  n_prevp :: ptrloc
  issuer :: issuer_ptr
  current_component :: "addr option"
  has_selfsig :: bool
  dups :: nat
  missing_issuer :: nat
  reordered :: nat
  bad_signature :: nat
  missing_selfsig :: nat
  modified :: int
  tty :: "message list"

definition init_locals :: "heap \<Rightarrow> addr option \<Rightarrow> locals" where
  "init_locals h k =
     \<lparr>mem = h, kb = k, n_node = k, n_prevp = Kb_var, issuer = Issuer_null,
      current_component = None, has_selfsig = False, dups = 0, missing_issuer = 0,
      reordered = 0, bad_signature = 0, missing_selfsig = 0, modified = 0, tty = []\<rparr>"

section \<open>First pass: duplicate signatures (lines 113 to 207)\<close>

definition is_signature :: "packet \<Rightarrow> bool" where
  "is_signature p = (case p of PKT_SIGNATURE _ \<Rightarrow> True | _ \<Rightarrow> False)"

definition is_component :: "packet \<Rightarrow> bool" where
  "is_component p =
     (case p of PKT_USER_ID _ \<Rightarrow> True | PKT_PUBLIC_KEY _ \<Rightarrow> True
      | PKT_PUBLIC_SUBKEY _ \<Rightarrow> True | _ \<Rightarrow> False)"

text \<open>Lines 121 to 127: count the signatures; the state is \<open>(n, nsigs)\<close>.\<close>

definition count_step ::
  "heap \<Rightarrow> addr option \<times> nat \<Rightarrow> (addr option \<times> nat, error + nat) ctl option" where
  "count_step h s =
     (case s of (n, nsigs) \<Rightarrow>
        (case n of
           None \<Rightarrow> Some (Done (Inr nsigs))
         | Some a \<Rightarrow>
             (case h a of
                None \<Rightarrow> Some (Done (Inl Mem_fault))
              | Some nd \<Rightarrow>
                  if deleted nd then Some (Next (nextp nd, nsigs))
                  else if is_signature (pkt nd) then Some (Next (nextp nd, nsigs + 1))
                  else Some (Next (nextp nd, nsigs)))))"

text \<open>
  Lines 141 to 153: store the signature nodes in the array.  The state is \<open>(n, sigs)\<close>
  where \<open>sigs\<close> holds the entries \<open>0 .. i - 1\<close> written so far; a write at an index
  outside the \<open>nsigs\<close> allocated entries is a memory fault.
\<close>

definition collect_step ::
  "heap \<Rightarrow> nat \<Rightarrow> addr option \<times> addr list \<Rightarrow> (addr option \<times> addr list, error + addr list) ctl option" where
  "collect_step h nsigs s =
     (case s of (n, sigs) \<Rightarrow>
        (case n of
           None \<Rightarrow>
             if length sigs = nsigs then Some (Done (Inr sigs)) else Some (Done (Inl Assert_failed))
         | Some a \<Rightarrow>
             (case h a of
                None \<Rightarrow> Some (Done (Inl Mem_fault))
              | Some nd \<Rightarrow>
                  if deleted nd then Some (Next (nextp nd, sigs))
                  else if \<not> is_signature (pkt nd) then Some (Next (nextp nd, sigs))
                  else if length sigs < nsigs then Some (Next (nextp nd, sigs @ [a]))
                  else Some (Done (Inl Mem_fault)))))"

text \<open>
  The comparator as \<^verbatim>\<open>qsort\<close> calls it, on two entries of the array.  Every entry
  was stored by the loop above, which stores only nodes that hold a signature, so the two
  assertions of \<^verbatim>\<open>sig_comparison\<close> hold there; the value 0 of the other case is never
  used.
\<close>

definition sig_at :: "heap \<Rightarrow> addr \<Rightarrow> PKT_signature option" where
  "sig_at h a =
     (case h a of
        None \<Rightarrow> None
      | Some nd \<Rightarrow> (case pkt nd of PKT_SIGNATURE s \<Rightarrow> Some s | _ \<Rightarrow> None))"

definition sig_comparison_nodes :: "collab \<Rightarrow> heap \<Rightarrow> addr \<Rightarrow> addr \<Rightarrow> int" where
  "sig_comparison_nodes E h a b =
     (case sig_at h a of
        None \<Rightarrow> 0
      | Some x \<Rightarrow> (case sig_at h b of None \<Rightarrow> 0 | Some y \<Rightarrow> sig_comparison E x y))"

text \<open>
  Line 188 to 190: look for the node \<open>target\<close> from the head of the keyblock; the state
  is \<open>(prevp, z)\<close> and the result is \<open>prevp\<close>.
\<close>

definition unlink_step ::
  "heap \<Rightarrow> addr \<Rightarrow> ptrloc \<times> addr option \<Rightarrow> (ptrloc \<times> addr option, error + ptrloc) ctl option" where
  "unlink_step h target s =
     (case s of (prevp, z) \<Rightarrow>
        (case z of
           None \<Rightarrow> Some (Done (Inr prevp))
         | Some a \<Rightarrow>
             if a = target then Some (Done (Inr prevp))
             else
               (case h a of
                  None \<Rightarrow> Some (Done (Inl Mem_fault))
                | Some nd \<Rightarrow> Some (Next (Next_of a, nextp nd)))))"

text \<open>The assignment \<^verbatim>\<open>*p = v\<close> for a pointer \<open>p\<close> to a node pointer.\<close>

definition store_ptr :: "ptrloc \<Rightarrow> addr option \<Rightarrow> locals \<Rightarrow> error + locals" where
  "store_ptr p v s =
     (case p of
        Kb_var \<Rightarrow> Inr (s\<lparr>kb := v\<rparr>)
      | Next_of a \<Rightarrow>
          (case mem s a of
             None \<Rightarrow> Inl Mem_fault
           | Some nd \<Rightarrow> Inr (s\<lparr>mem := (mem s)(a \<mapsto> nd\<lparr>nextp := v\<rparr>)\<rparr>)))"

text \<open>
  Lines 182 to 200: remove the node \<open>a\<close> (\<^verbatim>\<open>sigs[to_kill]\<close>) from the keyblock and
  release it.  \<^verbatim>\<open>release_kbnode\<close> frees the node, whose \<^verbatim>\<open>next\<close> is
  \<^verbatim>\<open>NULL\<close> by then.
\<close>

definition remove_node :: "addr \<Rightarrow> locals \<Rightarrow> (error + locals) option" where
  "remove_node a s =
     bind_res (loop (unlink_step (mem s) a) (Kb_var, kb s)) (\<lambda>prevp.
       case mem s a of
         None \<Rightarrow> Some (Inl Mem_fault)
       | Some na \<Rightarrow>
           (case store_ptr prevp (nextp na) s of
              Inl e \<Rightarrow> Some (Inl e)
            | Inr s1 \<Rightarrow>
                Some (Inr (s1\<lparr>mem := (mem s1)(a := None), dups := dups s1 + 1, modified := 1\<rparr>))))"

text \<open>
  Lines 157 to 204: the scan of the sorted array; the state is
  \<open>(sigs, last_i, i, locals)\<close>.  An entry of the array is \<^verbatim>\<open>NULL\<close> once its node
  was removed.
\<close>

definition dedup_step ::
  "collab \<Rightarrow> nat \<Rightarrow> addr option list \<times> nat \<times> nat \<times> locals
   \<Rightarrow> (addr option list \<times> nat \<times> nat \<times> locals, error + locals) ctl option" where
  "dedup_step E nsigs st =
     (case st of (sigs, last_i, i, s) \<Rightarrow>
        if \<not> i < nsigs then Some (Done (Inr s))
        else
          (case sigs ! last_i of
             None \<Rightarrow> Some (Done (Inl Assert_failed))
           | Some a \<Rightarrow>
          (case mem s a of
             None \<Rightarrow> Some (Done (Inl Mem_fault))
           | Some na \<Rightarrow>
          (case pkt na of
             PKT_SIGNATURE sa \<Rightarrow>
          (case sigs ! i of
             None \<Rightarrow> Some (Done (Inl Assert_failed))
           | Some b \<Rightarrow>
          (case mem s b of
             None \<Rightarrow> Some (Done (Inl Mem_fault))
           | Some nb \<Rightarrow>
          (case pkt nb of
             PKT_SIGNATURE sb \<Rightarrow>
               if sig_comparison E sa sb = 0 then
                 (case remove_node a s of
                    None \<Rightarrow> None
                  | Some (Inl e) \<Rightarrow> Some (Done (Inl e))
                  | Some (Inr s') \<Rightarrow> Some (Next (sigs[last_i := None], i, i + 1, s')))
               else Some (Next (sigs, i, i + 1, s))
           | _ \<Rightarrow> Some (Done (Inl Assert_failed)))))
           | _ \<Rightarrow> Some (Done (Inl Assert_failed))))))"

text \<open>
  Lines 113 to 207 after the count: allocate, collect, sort, scan.  The result is \<open>None\<close>
  inside \<open>Inr\<close> when the function returns 0 at once (no signature, or no memory).
\<close>

definition dedup_pass :: "collab \<Rightarrow> locals \<Rightarrow> (error + locals option \<times> locals) option" where
  "dedup_pass E s =
     bind_res (loop (count_step (mem s)) (kb s, 0)) (\<lambda>nsigs.
       if nsigs = 0 then Some (Inr (None, s))
       else if \<not> xtrycalloc E (int nsigs) then
         Some (Inr (None, s\<lparr>tty := tty s @ [Log_error_allocating_memory]\<rparr>))
       else
         bind_res (loop (collect_step (mem s) nsigs) (kb s, [])) (\<lambda>sigs.
           bind_res
             (loop (dedup_step E nsigs)
                (map Some (qsort E (sig_comparison_nodes E (mem s)) sigs), 0, 1, s))
             (\<lambda>s'. Some (Inr (Some s', s')))))"

section \<open>Second pass: signatures after their component (lines 209 to 544)\<close>

text \<open>
  Lines 351 to 367: look for the component that the signature signs, first the current
  component and then every node from the head.  The state is
  \<open>(n2, processed_current_component)\<close>; the result is the final \<open>n2\<close>.
\<close>

definition search_step ::
  "collab \<Rightarrow> heap \<Rightarrow> addr option \<Rightarrow> addr option \<Rightarrow> PKT_public_key \<Rightarrow> PKT_signature
   \<Rightarrow> PKT_public_key \<Rightarrow> addr option \<times> bool
   \<Rightarrow> (addr option \<times> bool, error + addr option) ctl option" where
  "search_step E h k cc iss sig pk st =
     (case st of (n2, processed_current_component) \<Rightarrow>
        (case n2 of
           None \<Rightarrow> Some (Done (Inr None))
         | Some t \<Rightarrow>
             (case h t of
                None \<Rightarrow> Some (Done (Inl Mem_fault))
              | Some nt \<Rightarrow>
                  if deleted nt then
                    Some (Next (if processed_current_component then nextp nt else k, True))
                  else if processed_current_component \<and> n2 = cc then
                    Some (Next (if processed_current_component then nextp nt else k, True))
                  else if check_signature_over_key_or_uid E iss sig pk (pkt nt) = 0 then
                    Some (Done (Inr (Some t)))
                  else
                    Some (Next (if processed_current_component then nextp nt else k, True)))))"

text \<open>
  The third part of the \<^verbatim>\<open>for\<close> statement of line 213:
  \<^verbatim>\<open>n_prevp = (n->next == n_next ? &n->next : n_prevp), n = n_next\<close>, for the node
  \<open>a\<close> of this round.
\<close>

definition advance :: "addr \<Rightarrow> addr option \<Rightarrow> locals \<Rightarrow> (locals, error + locals) ctl option" where
  "advance a n_next s =
     (case mem s a of
        None \<Rightarrow> Some (Done (Inl Mem_fault))
      | Some nd \<Rightarrow>
          Some (Next (s\<lparr>n_prevp := (if nextp nd = n_next then Next_of a else n_prevp s),
                       n_node := n_next\<rparr>)))"

text \<open>
  Lines 406 to 420: unlink the signature node \<open>a\<close> and insert it right after the node
  \<open>t\<close> (\<^verbatim>\<open>n2\<close>).
\<close>

definition relocate :: "addr \<Rightarrow> addr \<Rightarrow> locals \<Rightarrow> error + locals" where
  "relocate a t s =
     (case mem s a of
        None \<Rightarrow> Inl Mem_fault
      | Some na \<Rightarrow>
     (case store_ptr (n_prevp s) (nextp na) s of
        Inl e \<Rightarrow> Inl e
      | Inr s1 \<Rightarrow>
     (case mem s1 t of
        None \<Rightarrow> Inl Mem_fault
      | Some nt \<Rightarrow>
     (case store_ptr (Next_of a) (nextp nt) s1 of
        Inl e \<Rightarrow> Inl e
      | Inr s2 \<Rightarrow>
     (case store_ptr (Next_of t) (Some a) s2 of
        Inl e \<Rightarrow> Inl e
      | Inr s3 \<Rightarrow> Inr (s3\<lparr>reordered := reordered s3 + 1, modified := 1\<rparr>))))))"

text \<open>
  Lines 328 to 436: the signature \<open>sig\<close> of node \<open>a\<close> with its issuer key \<open>iss\<close>
  resolved: test the algorithms, search the component, classify.
\<close>

definition place_signature ::
  "collab \<Rightarrow> PKT_public_key \<Rightarrow> addr \<Rightarrow> addr option \<Rightarrow> PKT_signature \<Rightarrow> PKT_public_key
   \<Rightarrow> locals \<Rightarrow> (locals, error + locals) ctl option" where
  "place_signature E pk a n_next sig iss s =
     (if openpgp_pk_test_algo E (pubkey_algo sig) \<noteq> 0 then
        advance a n_next (s\<lparr>tty := tty s @ [Tty_unsupported_pubkey_algo (pubkey_algo sig)]\<rparr>)
      else if openpgp_md_test_algo E (digest_algo sig) \<noteq> 0 then
        advance a n_next (s\<lparr>tty := tty s @ [Tty_unsupported_digest_algo (digest_algo sig)]\<rparr>)
      else
        (case loop (search_step E (mem s) (kb s) (current_component s) iss sig pk)
                (current_component s, False) of
           None \<Rightarrow> None
         | Some (Inl e) \<Rightarrow> Some (Done (Inl e))
         | Some (Inr n2) \<Rightarrow>
             if current_component s = n2 then advance a n_next s
             else
               (case n2 of
                  Some t \<Rightarrow>
                    (case mem s t of
                       None \<Rightarrow> Some (Done (Inl Mem_fault))
                     | Some nt \<Rightarrow>
                         if \<not> is_component (pkt nt) then Some (Done (Inl Assert_failed))
                         else
                           (case relocate a t s of
                              Inl e \<Rightarrow> Some (Done (Inl e))
                            | Inr s' \<Rightarrow> advance a n_next s'))
                | None \<Rightarrow> advance a n_next (s\<lparr>bad_signature := bad_signature s + 1\<rparr>))))"

text \<open>Lines 213 to 537: one round of the \<^verbatim>\<open>for\<close> loop over the keyblock.\<close>

definition place_step ::
  "collab \<Rightarrow> PKT_public_key \<Rightarrow> bool \<Rightarrow> bool \<Rightarrow> locals \<Rightarrow> (locals, error + locals) ctl option" where
  "place_step E pk only_selected only_selfsigs s0 =
     (case n_node s0 of
        None \<Rightarrow> Some (Done (Inr s0))
      | Some a \<Rightarrow>
     (case mem s0 a of
        None \<Rightarrow> Some (Done (Inl Mem_fault))
      | Some nd \<Rightarrow>
          let n_next = nextp nd in
          if deleted nd then advance a n_next s0
          else
            let s = s0\<lparr>issuer := (case issuer s0 of Issuer_fetched _ \<Rightarrow> Issuer_null | i \<Rightarrow> i)\<rparr> in
            (case pkt nd of
               PKT_PUBLIC_KEY k \<Rightarrow>
                 if pk_obj k \<noteq> pk_obj pk then Some (Done (Inl Assert_failed))
                 else if only_selected \<and> \<not> sel_key nd then
                   advance a n_next (s\<lparr>current_component := None\<rparr>)
                 else advance a n_next (s\<lparr>current_component := Some a\<rparr>)
             | PKT_PUBLIC_SUBKEY k \<Rightarrow>
                 if only_selected \<and> \<not> sel_key nd then
                   advance a n_next (s\<lparr>current_component := None\<rparr>)
                 else advance a n_next (s\<lparr>current_component := Some a\<rparr>)
             | PKT_USER_ID u \<Rightarrow>
                 if only_selected \<and> \<not> sel_uid nd then
                   advance a n_next (s\<lparr>current_component := None\<rparr>)
                 else advance a n_next (s\<lparr>current_component := Some a\<rparr>)
             | PKT_SIGNATURE sig \<Rightarrow>
                 if current_component s = None then advance a n_next s
                 else if keyid_cmp (pk_keyid pk) (keyid sig) = 0 then
                   place_signature E pk a n_next sig pk (s\<lparr>issuer := Issuer_pk\<rparr>)
                 else if only_selfsigs then advance a n_next s
                 else
                   (case get_pubkey E (keyid sig) of
                      None \<Rightarrow>
                        advance a n_next
                          (s\<lparr>issuer := Issuer_null, missing_issuer := missing_issuer s + 1\<rparr>)
                    | Some k \<Rightarrow>
                        place_signature E pk a n_next sig k (s\<lparr>issuer := Issuer_fetched k\<rparr>))
             | PKT_OTHER t \<Rightarrow> advance a n_next s)))"

definition placement_pass ::
  "collab \<Rightarrow> PKT_public_key \<Rightarrow> bool \<Rightarrow> bool \<Rightarrow> locals \<Rightarrow> (error + locals) option" where
  "placement_pass E pk only_selected only_selfsigs s =
     bind_res
       (loop (place_step E pk only_selected only_selfsigs)
          (s\<lparr>issuer := Issuer_null, n_prevp := Kb_var, n_node := kb s\<rparr>))
       (\<lambda>s'. Some (Inr (s'\<lparr>issuer := Issuer_null\<rparr>)))"

section \<open>Third pass: components without a self-signature (lines 546 to 614)\<close>

text \<open>
  Lines 584 to 604: the three tests that set \<^verbatim>\<open>has_selfsig\<close> for a signature of
  class \<open>c\<close> under a component that holds the packet \<open>p\<close>.
\<close>

definition selfsig_tests :: "packet \<Rightarrow> nat \<Rightarrow> bool \<Rightarrow> bool" where
  "selfsig_tests p c hs0 =
     (let hs1 = (if (case p of PKT_PUBLIC_KEY _ \<Rightarrow> True | _ \<Rightarrow> False) \<and> (c = 0x1f \<or> c = 0x20)
                 then True else hs0);
          hs2 = (if (case p of PKT_PUBLIC_SUBKEY _ \<Rightarrow> True | _ \<Rightarrow> False) \<and> (c = 0x18 \<or> c = 0x28)
                 then True else hs1);
          hs3 = (if (case p of PKT_USER_ID _ \<Rightarrow> True | _ \<Rightarrow> False)
                    \<and> (c = 0x10 \<or> c = 0x11 \<or> c = 0x12 \<or> c = 0x13 \<or> c = 0x30)
                 then True else hs2)
      in hs3)"

text \<open>The \<^verbatim>\<open>case\<close> of lines 562 to 569, for the component node \<open>a\<close>.\<close>

definition audit_component :: "addr \<Rightarrow> locals \<Rightarrow> locals" where
  "audit_component a s =
     (let s1 = (if current_component s \<noteq> None \<and> \<not> has_selfsig s
                then s\<lparr>missing_selfsig := missing_selfsig s + 1\<rparr> else s)
      in s1\<lparr>current_component := Some a, has_selfsig := False\<rparr>)"

definition audit_step :: "PKT_public_key \<Rightarrow> locals \<Rightarrow> (locals, error + locals) ctl option" where
  "audit_step pk s =
     (case n_node s of
        None \<Rightarrow> Some (Done (Inr s))
      | Some a \<Rightarrow>
     (case mem s a of
        None \<Rightarrow> Some (Done (Inl Mem_fault))
      | Some nd \<Rightarrow>
          if deleted nd then Some (Next (s\<lparr>n_node := nextp nd\<rparr>))
          else
            (case pkt nd of
               PKT_PUBLIC_KEY k \<Rightarrow> Some (Next ((audit_component a s)\<lparr>n_node := nextp nd\<rparr>))
             | PKT_PUBLIC_SUBKEY k \<Rightarrow> Some (Next ((audit_component a s)\<lparr>n_node := nextp nd\<rparr>))
             | PKT_USER_ID u \<Rightarrow> Some (Next ((audit_component a s)\<lparr>n_node := nextp nd\<rparr>))
             | PKT_SIGNATURE sig \<Rightarrow>
                 (case current_component s of
                    None \<Rightarrow> Some (Next (s\<lparr>n_node := nextp nd\<rparr>))
                  | Some c \<Rightarrow>
                      if has_selfsig s then Some (Next (s\<lparr>n_node := nextp nd\<rparr>))
                      else if \<not> (checked sig \<and> valid sig) then Some (Next (s\<lparr>n_node := nextp nd\<rparr>))
                      else if keyid_cmp (pk_keyid pk) (keyid sig) \<noteq> 0 then
                        Some (Next (s\<lparr>n_node := nextp nd\<rparr>))
                      else
                        (case mem s c of
                           None \<Rightarrow> Some (Done (Inl Mem_fault))
                         | Some nc \<Rightarrow>
                             Some (Next (s\<lparr>has_selfsig :=
                                              selfsig_tests (pkt nc) (sig_class sig) (has_selfsig s),
                                            n_node := nextp nd\<rparr>))))
             | PKT_OTHER t \<Rightarrow>
                 Some (Next ((if current_component s \<noteq> None \<and> \<not> has_selfsig s
                              then s\<lparr>missing_selfsig := missing_selfsig s + 1\<rparr> else s)
                             \<lparr>current_component := None, n_node := nextp nd\<rparr>)))))"

definition audit_pass :: "PKT_public_key \<Rightarrow> locals \<Rightarrow> (error + locals) option" where
  "audit_pass pk s =
     loop (audit_step pk) (s\<lparr>has_selfsig := False, current_component := None, n_node := kb s\<rparr>)"

section \<open>The summary and the whole function\<close>

text \<open>Lines 616 to 637.\<close>

definition summary :: "bool \<Rightarrow> locals \<Rightarrow> message list" where
  "summary only_selfsigs s =
     (if dups s \<noteq> 0 \<or> missing_issuer s \<noteq> 0 \<or> bad_signature s \<noteq> 0 \<or> reordered s \<noteq> 0
      then [Tty_key_header] else [])
     @ (if dups s \<noteq> 0 then [Tty_duplicates_removed (dups s)] else [])
     @ (if missing_issuer s \<noteq> 0 then [Tty_missing_keys (missing_issuer s)] else [])
     @ (if bad_signature s \<noteq> 0 then [Tty_bad_signatures (bad_signature s)] else [])
     @ (if reordered s \<noteq> 0 then [Tty_reordered (reordered s)] else [])
     @ (if only_selfsigs \<and> (bad_signature s \<noteq> 0 \<or> reordered s \<noteq> 0)
        then [Tty_warning_only_selfsigs] else [])"

text \<open>
  The function returns its \<^verbatim>\<open>int\<close> result together with the final values of its
  local variables, which hold the keyblock as the caller finds it (\<open>mem\<close>), the counters
  and the messages written.
\<close>

definition key_check_all_keysigs ::
  "collab \<Rightarrow> heap \<Rightarrow> addr option \<Rightarrow> bool \<Rightarrow> bool \<Rightarrow> (error + int \<times> locals) option" where
  "key_check_all_keysigs E h k only_selected only_selfsigs =
     (case k of
        None \<Rightarrow> Some (Inl Mem_fault)
      | Some a \<Rightarrow>
     (case h a of
        None \<Rightarrow> Some (Inl Mem_fault)
      | Some nd \<Rightarrow>
     (case pkt nd of
        PKT_PUBLIC_KEY pk \<Rightarrow>
          bind_res (dedup_pass E (init_locals h k)) (\<lambda>r.
            case r of
              (None, s) \<Rightarrow> Some (Inr (0, s))
            | (Some s1, _) \<Rightarrow>
                bind_res (placement_pass E pk only_selected only_selfsigs s1) (\<lambda>s2.
                  bind_res (audit_pass pk s2) (\<lambda>s3.
                    Some (Inr (modified s3, s3\<lparr>tty := tty s3 @ summary only_selfsigs s3\<rparr>)))))
      | _ \<Rightarrow> Some (Inl Assert_failed))))"


section \<open>Notions used to state the properties\<close>

text \<open>
  A keyblock is well formed when following the \<^verbatim>\<open>next\<close> pointers from its head
  reaches \<^verbatim>\<open>NULL\<close>: \<open>islist h p xs\<close> says that the nodes met from the pointer
  \<open>p\<close> on are those at the addresses \<open>xs\<close>, in this order.
\<close>

fun islist :: "heap \<Rightarrow> addr option \<Rightarrow> addr list \<Rightarrow> bool" where
  "islist h p [] = (p = None)"
| "islist h p (a # as) =
     (p = Some a \<and> (case h a of None \<Rightarrow> False | Some nd \<Rightarrow> islist h (nextp nd) as))"

text \<open>A node that the first pass counts: a signature that is not deleted.\<close>

definition live_sig :: "heap \<Rightarrow> addr \<Rightarrow> bool" where
  "live_sig h a = (case h a of None \<Rightarrow> False | Some nd \<Rightarrow> \<not> deleted nd \<and> is_signature (pkt nd))"

text \<open>
  The packets of the nodes of a keyblock that are not deleted, in order: what the loops see,
  which all skip deleted nodes.
\<close>

definition node_pkts :: "heap \<Rightarrow> addr list \<Rightarrow> packet list" where
  "node_pkts h xs =
     concat (map (\<lambda>a. case h a of None \<Rightarrow> [] | Some nd \<Rightarrow> if deleted nd then [] else [pkt nd]) xs)"

text \<open>
  The candidate \<open>t\<close> passes the test of the search loop (lines 355 to 366): its node is
  not deleted and the signature verifies over its packet.
\<close>

definition verifies ::
  "collab \<Rightarrow> heap \<Rightarrow> PKT_public_key \<Rightarrow> PKT_signature \<Rightarrow> PKT_public_key \<Rightarrow> addr \<Rightarrow> bool" where
  "verifies E h iss sig pk t =
     (case h t of
        None \<Rightarrow> False
      | Some nt \<Rightarrow> \<not> deleted nt \<and> check_signature_over_key_or_uid E iss sig pk (pkt nt) = 0)"

text \<open>The value of the \<^verbatim>\<open>int\<close> that a run returns.\<close>

definition return_value :: "(error + int \<times> locals) option \<Rightarrow> int option" where
  "return_value r = (case r of Some (Inr (ret, s)) \<Rightarrow> Some ret | _ \<Rightarrow> None)"

text \<open>The error with which a run aborts, if it does.\<close>

definition failure :: "(error + int \<times> locals) option \<Rightarrow> error option" where
  "failure r = (case r of Some (Inl e) \<Rightarrow> Some e | _ \<Rightarrow> None)"

text \<open>
  What the third pass counts, stated on the list of packets.  A signature \<open>q\<close> is
  accepted as the self-signature of a component \<open>p\<close> when it is checked and valid, its
  issuer is the primary key and its class is one for the kind of \<open>p\<close>.  The signatures
  of a component are those that follow it directly.  A component counts as missing its
  self-signature when something follows its signatures (the next component or a packet of
  another kind) and none of its signatures is accepted.
\<close>

definition accepted_selfsig :: "PKT_public_key \<Rightarrow> packet \<Rightarrow> packet \<Rightarrow> bool" where
  "accepted_selfsig pk p q =
     (case q of
        PKT_SIGNATURE sig \<Rightarrow>
          checked sig \<and> valid sig \<and> keyid sig = pk_keyid pk
          \<and> (case p of
                PKT_PUBLIC_KEY _ \<Rightarrow> sig_class sig = 0x1f \<or> sig_class sig = 0x20
              | PKT_PUBLIC_SUBKEY _ \<Rightarrow> sig_class sig = 0x18 \<or> sig_class sig = 0x28
              | PKT_USER_ID _ \<Rightarrow> sig_class sig \<in> {0x10, 0x11, 0x12, 0x13, 0x30}
              | _ \<Rightarrow> False)
      | _ \<Rightarrow> False)"

definition open_missing :: "PKT_public_key \<Rightarrow> packet \<Rightarrow> bool \<Rightarrow> packet list \<Rightarrow> nat" where
  "open_missing pk p hs ps =
     (if dropWhile is_signature ps \<noteq> [] \<and> \<not> hs
         \<and> \<not> (\<exists>q \<in> set (takeWhile is_signature ps). accepted_selfsig pk p q)
      then 1 else 0)"

function missing_selfsigs :: "PKT_public_key \<Rightarrow> packet list \<Rightarrow> nat" where
  "missing_selfsigs pk [] = 0"
| "missing_selfsigs pk (p # ps) =
     (if is_component p
      then open_missing pk p False ps + missing_selfsigs pk (dropWhile is_signature ps)
      else missing_selfsigs pk ps)"
  by pat_completeness auto
termination
  by (relation "measure (\<lambda>(pk, ps). length ps)") (auto simp: length_dropWhile_le less_Suc_eq_le)

text \<open>The part of the count that is still open for the current component of a state.\<close>

definition pending :: "PKT_public_key \<Rightarrow> heap \<Rightarrow> addr option \<Rightarrow> bool \<Rightarrow> packet list \<Rightarrow> nat" where
  "pending pk h cc hs ps =
     (case cc of
        None \<Rightarrow> 0
      | Some c \<Rightarrow> (case h c of None \<Rightarrow> 0 | Some nc \<Rightarrow> open_missing pk (pkt nc) hs ps))"

text \<open>Two states differ at most in the variables that the third pass assigns.\<close>

definition audit_frame :: "locals \<Rightarrow> locals \<Rightarrow> bool" where
  "audit_frame s s' =
     (s'\<lparr>n_node := None, current_component := None, has_selfsig := False, missing_selfsig := 0\<rparr>
      = s\<lparr>n_node := None, current_component := None, has_selfsig := False, missing_selfsig := 0\<rparr>)"

text \<open>Invariants of the passes: relations between the counters that every step keeps.\<close>

definition mod_inv :: "locals \<Rightarrow> bool" where
  "mod_inv s =
     (((modified s = 1) = (0 < dups s \<or> 0 < reordered s)) \<and> (modified s = 0 \<or> modified s = 1))"

definition res_inv :: "(locals \<Rightarrow> bool) \<Rightarrow> error + locals \<Rightarrow> bool" where
  "res_inv P r = (case r of Inl e \<Rightarrow> True | Inr s \<Rightarrow> P s)"

definition ctl_inv :: "(locals \<Rightarrow> bool) \<Rightarrow> (locals, error + locals) ctl \<Rightarrow> bool" where
  "ctl_inv P c = (case c of Next s' \<Rightarrow> P s' | Done r \<Rightarrow> res_inv P r)"

definition cnt_inv :: "nat \<Rightarrow> nat \<Rightarrow> locals \<Rightarrow> bool" where
  "cnt_inv d m s = (dups s = d \<and> missing_issuer s = m)"

definition mi_inv :: "nat \<Rightarrow> locals \<Rightarrow> bool" where
  "mi_inv m s = (missing_issuer s = m)"

section \<open>Notions for the keyblock as a linked list\<close>

text \<open>
  The nodes met from the pointer \<open>p\<close> up to, and without, the pointer \<open>q\<close> are those at the
  addresses \<open>xs\<close>: a segment of a keyblock.  \<open>islist h p xs\<close> is \<open>path h p xs None\<close>.
\<close>

fun path :: "heap \<Rightarrow> addr option \<Rightarrow> addr list \<Rightarrow> addr option \<Rightarrow> bool" where
  "path h p [] q = (p = q)"
| "path h p (a # as) q =
     (p = Some a \<and> (case h a of None \<Rightarrow> False | Some nd \<Rightarrow> path h (nextp nd) as q))"

text \<open>
  The pointer variable through which the node after the segment \<open>pre\<close> is reached: the
  variable \<^verbatim>\<open>kb\<close> when the segment is empty, the \<^verbatim>\<open>next\<close> field of its last node
  otherwise.
\<close>

definition ploc :: "addr list \<Rightarrow> ptrloc" where
  "ploc pre = (if pre = [] then Kb_var else Next_of (last pre))"

text \<open>
  The heap after an assignment to the \<^verbatim>\<open>next\<close> field of the node \<open>a\<close>.
\<close>

definition upd_next :: "addr \<Rightarrow> addr option \<Rightarrow> heap \<Rightarrow> heap" where
  "upd_next a v h = (case h a of None \<Rightarrow> h | Some nd \<Rightarrow> h(a \<mapsto> nd\<lparr>nextp := v\<rparr>))"

text \<open>
  What a node holds apart from its \<^verbatim>\<open>next\<close> pointer.  The passes change the links of the
  keyblock; the conservation properties say that they keep the content.
\<close>

definition content :: "heap \<Rightarrow> addr \<Rightarrow> (packet \<times> bool \<times> bool \<times> bool) option" where
  "content h a = map_option (\<lambda>nd. (pkt nd, deleted nd, sel_key nd, sel_uid nd)) (h a)"

text \<open>
  Two states agree on every variable but the heap and the head of the keyblock.
\<close>

definition heap_frame :: "locals \<Rightarrow> locals \<Rightarrow> bool" where
  "heap_frame s s' =
     (n_node s' = n_node s \<and> n_prevp s' = n_prevp s \<and> issuer s' = issuer s
      \<and> current_component s' = current_component s \<and> has_selfsig s' = has_selfsig s
      \<and> dups s' = dups s \<and> missing_issuer s' = missing_issuer s \<and> reordered s' = reordered s
      \<and> bad_signature s' = bad_signature s \<and> missing_selfsig s' = missing_selfsig s
      \<and> modified s' = modified s \<and> tty s' = tty s)"

text \<open>
  The node \<open>a\<close> is a duplicate of the node \<open>b\<close>: both hold a signature and
  \<^verbatim>\<open>sig_comparison\<close> returns 0 on the two.
\<close>

definition dup_of :: "collab \<Rightarrow> heap \<Rightarrow> addr \<Rightarrow> addr \<Rightarrow> bool" where
  "dup_of E h a b =
     (case sig_at h a of
        None \<Rightarrow> False
      | Some x \<Rightarrow> (case sig_at h b of None \<Rightarrow> False | Some y \<Rightarrow> sig_comparison E x y = 0))"

text \<open>
  The nodes that the scan of lines 157 to 204 removes from a sorted array \<open>xs\<close>: every
  entry that equals its successor, since the scan compares \<^verbatim>\<open>sigs[i - 1]\<close> with
  \<^verbatim>\<open>sigs[i]\<close> and removes the former.
\<close>

fun kills :: "(addr \<Rightarrow> addr \<Rightarrow> bool) \<Rightarrow> addr list \<Rightarrow> addr list" where
  "kills eq (x # y # ys) = (if eq x y then x # kills eq (y # ys) else kills eq (y # ys))"
| "kills eq [x] = []"
| "kills eq [] = []"

text \<open>
  Two states agree on every variable but the heap, the head, \<^verbatim>\<open>dups\<close> and
  \<^verbatim>\<open>modified\<close>: the variables that the first pass assigns.
\<close>

definition dedup_frame :: "locals \<Rightarrow> locals \<Rightarrow> bool" where
  "dedup_frame s s' = heap_frame (s\<lparr>dups := 0, modified := 0\<rparr>) (s'\<lparr>dups := 0, modified := 0\<rparr>)"

text \<open>
  The value of \<^verbatim>\<open>current_component\<close> after the round of the second pass for the node
  \<open>a\<close>, from its value \<open>cc\<close> before (lines 239 to 284): a key or a user id becomes the
  current component, or none when only selected components are checked and it is not
  selected.
\<close>

definition ctx_step :: "bool \<Rightarrow> heap \<Rightarrow> addr option \<Rightarrow> addr \<Rightarrow> addr option" where
  "ctx_step os h cc a =
     (case h a of
        None \<Rightarrow> cc
      | Some nd \<Rightarrow>
          if deleted nd then cc
          else
            (case pkt nd of
               PKT_PUBLIC_KEY _ \<Rightarrow> if os \<and> \<not> sel_key nd then None else Some a
             | PKT_PUBLIC_SUBKEY _ \<Rightarrow> if os \<and> \<not> sel_key nd then None else Some a
             | PKT_USER_ID _ \<Rightarrow> if os \<and> \<not> sel_uid nd then None else Some a
             | _ \<Rightarrow> cc))"

text \<open>
  What the second pass does with a node.
\<close>

datatype verdict = Skipped | Missing_issuer | Unsupported | Good | Misplaced | Bad

text \<open>
  The verdict on a signature \<open>sig\<close> with issuer key \<open>iss\<close> under the current component
  \<open>c\<close> (lines 328 to 436), stated on the list \<open>L\<close> of the nodes of the keyblock.
\<close>

definition judge ::
  "collab \<Rightarrow> PKT_public_key \<Rightarrow> heap \<Rightarrow> addr list \<Rightarrow> addr \<Rightarrow> PKT_signature \<Rightarrow> PKT_public_key
   \<Rightarrow> verdict" where
  "judge E pk h L c sig iss =
     (if openpgp_pk_test_algo E (pubkey_algo sig) \<noteq> 0
         \<or> openpgp_md_test_algo E (digest_algo sig) \<noteq> 0 then Unsupported
      else if verifies E h iss sig pk c then Good
      else if \<exists>t \<in> set L. verifies E h iss sig pk t then Misplaced
      else Bad)"

text \<open>
  The verdict of the round for the node \<open>a\<close> when the current component is \<open>cc\<close>
  (lines 226 to 436).
\<close>

definition verdict_of ::
  "collab \<Rightarrow> PKT_public_key \<Rightarrow> bool \<Rightarrow> heap \<Rightarrow> addr list \<Rightarrow> addr option \<Rightarrow> addr \<Rightarrow> verdict" where
  "verdict_of E pk oss h L cc a =
     (case h a of
        None \<Rightarrow> Skipped
      | Some nd \<Rightarrow>
          if deleted nd then Skipped
          else
            (case pkt nd of
               PKT_SIGNATURE sig \<Rightarrow>
                 (case cc of
                    None \<Rightarrow> Skipped
                  | Some c \<Rightarrow>
                      if keyid_cmp (pk_keyid pk) (keyid sig) = 0 then judge E pk h L c sig pk
                      else if oss then Skipped
                      else
                        (case get_pubkey E (keyid sig) of
                           None \<Rightarrow> Missing_issuer
                         | Some k \<Rightarrow> judge E pk h L c sig k))
             | _ \<Rightarrow> Skipped))"

text \<open>
  The number of nodes of \<open>xs\<close> with verdict \<open>v\<close> when the nodes are visited in order from
  the current component \<open>cc\<close>; \<open>V\<close> gives the verdict and \<open>C\<close> the next current
  component.
\<close>

fun tally ::
  "verdict \<Rightarrow> (addr option \<Rightarrow> addr \<Rightarrow> verdict) \<Rightarrow> (addr option \<Rightarrow> addr \<Rightarrow> addr option)
   \<Rightarrow> addr option \<Rightarrow> addr list \<Rightarrow> nat" where
  "tally v V C cc [] = 0"
| "tally v V C cc (a # as) = (if V cc a = v then 1 else 0) + tally v V C (C cc a) as"

text \<open>
  The list of nodes after \<open>a\<close> was linked behind the node \<open>t\<close> (lines 413 to 415).
\<close>

fun insert_after :: "addr \<Rightarrow> addr \<Rightarrow> addr list \<Rightarrow> addr list" where
  "insert_after t a [] = []"
| "insert_after t a (y # ys) = (if y = t then y # a # ys else y # insert_after t a ys)"

text \<open>
  The node \<open>a\<close> passes the assertion of line 243: when it holds a primary key and is not
  deleted, the key is \<open>pk\<close>.
\<close>

definition key_ok :: "PKT_public_key \<Rightarrow> heap \<Rightarrow> addr \<Rightarrow> bool" where
  "key_ok pk h a =
     (case h a of
        None \<Rightarrow> True
      | Some nd \<Rightarrow>
          deleted nd \<or> (case pkt nd of PKT_PUBLIC_KEY k \<Rightarrow> pk_obj k = pk_obj pk | _ \<Rightarrow> True))"

text \<open>
  The invariant of the second pass.  \<open>h0\<close>, \<open>k0\<close>, \<open>L0\<close> and \<open>s0\<close> are the heap, the
  head, the nodes and the state when the pass starts; \<open>pre\<close> are the nodes before the
  cursor \<^verbatim>\<open>n\<close> and \<open>rest\<close> the nodes from the cursor on.  The nodes and their content
  are those of the start, the nodes of \<open>pre\<close> passed the assertion on primary keys, the
  counters are the tallies of the verdicts over \<open>pre\<close>, no
  node of \<open>pre\<close> is misplaced, and every misplaced node of the start is either relocated
  or still in \<open>rest\<close>.
\<close>

definition pinv ::
  "collab \<Rightarrow> PKT_public_key \<Rightarrow> bool \<Rightarrow> bool \<Rightarrow> heap \<Rightarrow> addr option \<Rightarrow> addr list \<Rightarrow> locals
   \<Rightarrow> addr list \<Rightarrow> addr list \<Rightarrow> locals \<Rightarrow> bool" where
  "pinv E pk os oss h0 k0 L0 s0 pre rest s =
     (path (mem s) (kb s) pre (n_node s) \<and> islist (mem s) (n_node s) rest
      \<and> distinct (pre @ rest) \<and> set (pre @ rest) = set L0
      \<and> content (mem s) = content h0
      \<and> n_prevp s = ploc pre
      \<and> current_component s = foldl (ctx_step os h0) None pre
      \<and> missing_issuer s = missing_issuer s0
            + tally Missing_issuer (verdict_of E pk oss h0 L0) (ctx_step os h0) None pre
      \<and> bad_signature s = bad_signature s0
            + tally Bad (verdict_of E pk oss h0 L0) (ctx_step os h0) None pre
      \<and> tally Misplaced (verdict_of E pk oss h0 L0) (ctx_step os h0) None pre = 0
      \<and> reordered s
            + tally Misplaced (verdict_of E pk oss h0 L0) (ctx_step os h0) (current_component s) rest
          = reordered s0 + tally Misplaced (verdict_of E pk oss h0 L0) (ctx_step os h0) None L0
      \<and> (reordered s = reordered s0 \<longrightarrow> mem s = h0 \<and> kb s = k0)
      \<and> reordered s0 \<le> reordered s
      \<and> dups s = dups s0
      \<and> modified s = (if reordered s = reordered s0 then modified s0 else 1)
      \<and> has_selfsig s = has_selfsig s0 \<and> missing_selfsig s = missing_selfsig s0
      \<and> list_all (key_ok pk h0) pre)"

text \<open>
  What decreases with every round of the second pass: the nodes still to visit, counted
  twice when they will be relocated behind a node that the cursor has not reached.
\<close>

definition pmeasure ::
  "collab \<Rightarrow> PKT_public_key \<Rightarrow> bool \<Rightarrow> bool \<Rightarrow> heap \<Rightarrow> addr list \<Rightarrow> addr list \<Rightarrow> locals \<Rightarrow> nat" where
  "pmeasure E pk os oss h0 L0 rest s =
     length rest
     + tally Misplaced (verdict_of E pk oss h0 L0) (ctx_step os h0) (current_component s) rest"

text \<open>
  Once the cursor of the second pass has left the head of the keyblock, \<^verbatim>\<open>n_prevp\<close> points
  into a node and the variable \<^verbatim>\<open>kb\<close> keeps its value \<open>k0\<close>.
\<close>

definition kb_inv :: "addr option \<Rightarrow> locals \<Rightarrow> bool" where
  "kb_inv k0 s = (kb s = k0 \<and> n_prevp s \<noteq> Kb_var)"

text \<open>
  What a run needs from its collaborators on the keyblock with the nodes \<open>L\<close>: the array
  for the signatures that are not deleted is allocated, and \<^verbatim>\<open>qsort\<close> returns it permuted
  and sorted under \<^verbatim>\<open>sig_comparison\<close>.
\<close>

definition sorts :: "collab \<Rightarrow> heap \<Rightarrow> addr list \<Rightarrow> bool" where
  "sorts E h L =
     (let S = filter (live_sig h) L; X = qsort E (sig_comparison_nodes E h) S
      in xtrycalloc E (int (length S)) \<and> mset X = mset S
         \<and> sorted_wrt (\<lambda>a b. sig_comparison_nodes E h a b \<le> 0) X)"

text \<open>
  Two runs in a row: the second run gets the keyblock as the first run leaves it, under the
  head pointer of the caller.
\<close>

definition run_twice ::
  "collab \<Rightarrow> heap \<Rightarrow> addr option \<Rightarrow> bool \<Rightarrow> bool \<Rightarrow> (error + int \<times> locals) option" where
  "run_twice E h k only_selected only_selfsigs =
     (case key_check_all_keysigs E h k only_selected only_selfsigs of
        Some (Inr (ret, s)) \<Rightarrow> key_check_all_keysigs E (mem s) k only_selected only_selfsigs
      | r \<Rightarrow> r)"

section \<open>Concrete collaborators and keyblocks\<close>

text \<open>
  A concrete instance of the collaborators, used to run the model on keyblocks:
  \<^verbatim>\<open>qsort\<close> is insertion sort, the payload counts are those of RSA (1), DSA (17)
  and EdDSA (22), the only issuer that can be fetched has key id \<open>(7, 7)\<close>, and a
  signature verifies over a key or user id packet exactly when its issuer has the key id
  that the signature names and its timestamp field names the packet (the object of a key,
  the length of a user id).  No packet other than a key or a user id verifies.
\<close>

fun insert_sorted :: "(addr \<Rightarrow> addr \<Rightarrow> int) \<Rightarrow> addr \<Rightarrow> addr list \<Rightarrow> addr list" where
  "insert_sorted cmp x [] = [x]"
| "insert_sorted cmp x (y # ys) =
     (if cmp x y \<le> 0 then x # y # ys else y # insert_sorted cmp x ys)"

fun insertion_sort :: "(addr \<Rightarrow> addr \<Rightarrow> int) \<Rightarrow> addr list \<Rightarrow> addr list" where
  "insertion_sort cmp [] = []"
| "insertion_sort cmp (x # xs) = insert_sorted cmp x (insertion_sort cmp xs)"

definition ex_nsig :: "nat \<Rightarrow> int" where
  "ex_nsig algo = (if algo = 1 then 1 else if algo = 17 \<or> algo = 22 then 2 else 0)"

definition ex_target :: "packet \<Rightarrow> nat option" where
  "ex_target p =
     (case p of
        PKT_PUBLIC_KEY k \<Rightarrow> Some (pk_obj k)
      | PKT_PUBLIC_SUBKEY k \<Rightarrow> Some (pk_obj k)
      | PKT_USER_ID u \<Rightarrow> Some (length (name u))
      | _ \<Rightarrow> None)"

definition ex_verify :: "PKT_public_key \<Rightarrow> PKT_signature \<Rightarrow> PKT_public_key \<Rightarrow> packet \<Rightarrow> nat" where
  "ex_verify iss sig pk p =
     (if pk_keyid iss = keyid sig \<and> ex_target p = Some (timestamp sig) then 0 else 8)"

definition ex_E :: collab where
  "ex_E =
     \<lparr>pubkey_get_nsig = ex_nsig, qsort = insertion_sort, xtrycalloc = (\<lambda>n. True),
      get_pubkey = (\<lambda>k. if k = (7, 7) then Some \<lparr>pk_obj = 700, pk_keyid = (7, 7)\<rparr> else None),
      openpgp_pk_test_algo = (\<lambda>a. if ex_nsig a = 0 then 4 else 0),
      openpgp_md_test_algo = (\<lambda>a. if a = 8 \<or> a = 10 then 0 else 5),
      check_signature_over_key_or_uid = ex_verify\<rparr>"

definition ex_pk :: PKT_public_key where
  "ex_pk = \<lparr>pk_obj = 100, pk_keyid = (1, 1)\<rparr>"

definition ex_sub :: PKT_public_key where
  "ex_sub = \<lparr>pk_obj = 200, pk_keyid = (2, 2)\<rparr>"

text \<open>An RSA signature with digest algorithm 8, checked and valid.\<close>

definition mk_sig :: "keyid_t \<Rightarrow> nat \<Rightarrow> nat \<Rightarrow> mpi list \<Rightarrow> PKT_signature" where
  "mk_sig k c t d =
     \<lparr>keyid = k, sig_class = c, pubkey_algo = 1, digest_algo = 8, timestamp = t,
      checked = True, valid = True, data = d\<rparr>"

definition mk_node :: "packet \<Rightarrow> addr option \<Rightarrow> kbnode" where
  "mk_node p nx = \<lparr>nextp = nx, pkt = p, deleted = False, sel_key = False, sel_uid = False\<rparr>"

text \<open>The keyblock that holds the given packets in nodes at consecutive addresses.\<close>

fun mk_heap :: "addr \<Rightarrow> packet list \<Rightarrow> heap" where
  "mk_heap a [] = Map.empty"
| "mk_heap a [p] = [a \<mapsto> mk_node p None]"
| "mk_heap a (p # ps) = (mk_heap (Suc a) ps)(a \<mapsto> mk_node p (Some (Suc a)))"

text \<open>The return value and the five counters of a run.\<close>

definition counters ::
  "(error + int \<times> locals) option \<Rightarrow> (int \<times> nat \<times> nat \<times> nat \<times> nat \<times> nat) option" where
  "counters r =
     (case r of
        Some (Inr (ret, s)) \<Rightarrow>
          Some (ret, dups s, missing_issuer s, reordered s, bad_signature s, missing_selfsig s)
      | _ \<Rightarrow> None)"

text \<open>
  A primary key, a user id with its self-signature, a signature that verifies over nothing
  and a signature whose issuer cannot be fetched.
\<close>

definition ex_kb_bad :: "packet list" where
  "ex_kb_bad =
     [PKT_PUBLIC_KEY ex_pk, PKT_USER_ID \<lparr>name = ''abc''\<rparr>,
      PKT_SIGNATURE (mk_sig (1, 1) 0x13 3 [5]),
      PKT_SIGNATURE (mk_sig (1, 1) 0x13 55 [7]),
      PKT_SIGNATURE (mk_sig (9, 9) 0x13 3 [8])]"

text \<open>A primary key and a user id with its self-signature.\<close>

definition ex_kb_clean :: "packet list" where
  "ex_kb_clean =
     [PKT_PUBLIC_KEY ex_pk, PKT_USER_ID \<lparr>name = ''abc''\<rparr>,
      PKT_SIGNATURE (mk_sig (1, 1) 0x13 3 [5])]"

text \<open>
  A primary key with a direct-key self-signature, followed by a user id that no signature
  certifies.
\<close>

definition ex_kb_uid_last :: "packet list" where
  "ex_kb_uid_last =
     [PKT_PUBLIC_KEY ex_pk, PKT_SIGNATURE (mk_sig (1, 1) 0x1f 100 [6]),
      PKT_USER_ID \<lparr>name = ''abc''\<rparr>]"

text \<open>A primary key, a user id, and a subkey with its binding signature.\<close>

definition ex_kb_subkey :: "packet list" where
  "ex_kb_subkey =
     [PKT_PUBLIC_KEY ex_pk, PKT_USER_ID \<lparr>name = ''abc''\<rparr>, PKT_PUBLIC_SUBKEY ex_sub,
      PKT_SIGNATURE (mk_sig (1, 1) 0x18 200 [6])]"

text \<open>Collaborators with which no allocation succeeds.\<close>

definition ex_E_nomem :: collab where
  "ex_E_nomem = ex_E\<lparr>xtrycalloc := \<lambda>n. False\<rparr>"

text \<open>Collaborators whose verification accepts signature packets and nothing else.\<close>

definition ex_E_loose :: collab where
  "ex_E_loose =
     ex_E\<lparr>check_signature_over_key_or_uid := \<lambda>iss sig pk p. if is_signature p then 0 else 8\<rparr>"

text \<open>
  A primary key, a signature that verifies over the user id but stands before it, and the
  user id.
\<close>

definition ex_kb_misplaced :: "packet list" where
  "ex_kb_misplaced =
     [PKT_PUBLIC_KEY ex_pk, PKT_SIGNATURE (mk_sig (1, 1) 0x13 3 [5]),
      PKT_USER_ID \<lparr>name = ''abc''\<rparr>]"

text \<open>
  A primary key, a user id with its self-signature, and two signatures of another key that
  are duplicates of each other: same digest algorithm, same payload.
\<close>

definition ex_kb_foreign_dup :: "packet list" where
  "ex_kb_foreign_dup =
     [PKT_PUBLIC_KEY ex_pk, PKT_USER_ID \<lparr>name = ''abc''\<rparr>,
      PKT_SIGNATURE (mk_sig (1, 1) 0x13 3 [5]),
      PKT_SIGNATURE (mk_sig (9, 9) 0x13 3 [8]),
      PKT_SIGNATURE (mk_sig (9, 9) 0x10 77 [8])]"

text \<open>
  The keyblock \<open>ex_kb_uid_last\<close> with a subkey and its binding signature after the user
  id that no signature certifies.
\<close>

definition ex_kb_uid_subkey :: "packet list" where
  "ex_kb_uid_subkey =
     [PKT_PUBLIC_KEY ex_pk, PKT_SIGNATURE (mk_sig (1, 1) 0x1f 100 [6]),
      PKT_USER_ID \<lparr>name = ''abc''\<rparr>, PKT_PUBLIC_SUBKEY ex_sub,
      PKT_SIGNATURE (mk_sig (1, 1) 0x18 200 [7])]"

text \<open>
  A primary key and a user id with its self-signature, a signature of the primary key that
  verifies over nothing, and a duplicate of the self-signature with another class.
\<close>

definition ex_kb_dup_bad :: "packet list" where
  "ex_kb_dup_bad =
     [PKT_PUBLIC_KEY ex_pk, PKT_USER_ID \<lparr>name = ''abc''\<rparr>,
      PKT_SIGNATURE (mk_sig (1, 1) 0x13 3 [5]),
      PKT_SIGNATURE (mk_sig (1, 1) 0x13 55 [7]),
      PKT_SIGNATURE (mk_sig (1, 1) 0x10 3 [5])]"

text \<open>
  A primary key, a user id and two signatures with public-key algorithms that have no
  payload count; the two agree in the digest algorithm and in nothing else.
\<close>

definition ex_kb_unknown_algo :: "packet list" where
  "ex_kb_unknown_algo =
     [PKT_PUBLIC_KEY ex_pk, PKT_USER_ID \<lparr>name = ''abc''\<rparr>,
      PKT_SIGNATURE ((mk_sig (1, 1) 0x13 3 [5])\<lparr>pubkey_algo := 99\<rparr>),
      PKT_SIGNATURE ((mk_sig (9, 9) 0x10 77 [8, 9])\<lparr>pubkey_algo := 98\<rparr>)]"

text \<open>
  A primary key, a signature that verifies over the user id but stands before it, the user
  id, a signature of the primary key that verifies over nothing, and two signatures of a
  key that cannot be fetched, duplicates of each other.
\<close>

definition ex_kb_mixed :: "packet list" where
  "ex_kb_mixed =
     [PKT_PUBLIC_KEY ex_pk, PKT_SIGNATURE (mk_sig (1, 1) 0x13 3 [5]),
      PKT_USER_ID \<lparr>name = ''abc''\<rparr>,
      PKT_SIGNATURE (mk_sig (1, 1) 0x13 55 [7]),
      PKT_SIGNATURE (mk_sig (9, 9) 0x13 3 [8]),
      PKT_SIGNATURE (mk_sig (9, 9) 0x10 77 [8])]"

section \<open>Properties of the comparator\<close>

lemma gcry_mpi_cmp_eq_0: "(gcry_mpi_cmp a b = 0) = (a = b)"
  by (auto simp: gcry_mpi_cmp_def)

lemma sig_comparison_loop_eq_0:
  "0 \<le> i \<Longrightarrow>
   (sig_comparison_loop da db n i = 0) = (\<forall>j. nat i \<le> j \<and> int j < n \<longrightarrow> da ! j = db ! j)"
proof (induction da db n i rule: sig_comparison_loop.induct)
  case (1 da db ndataa i)
  show ?case
  proof (cases "i < ndataa")
    case False
    then show ?thesis
      using "1.prems" by (subst sig_comparison_loop.simps) auto
  next
    case True
    show ?thesis
    proof (cases "da ! nat i = db ! nat i")
      case False
      then have "sig_comparison_loop da db ndataa i \<noteq> 0"
        using True by (subst sig_comparison_loop.simps) (simp add: Let_def gcry_mpi_cmp_eq_0)
      moreover have "\<not> (\<forall>j. nat i \<le> j \<and> int j < ndataa \<longrightarrow> da ! j = db ! j)"
        using False True "1.prems" by (auto intro!: exI [of _ "nat i"])
      ultimately show ?thesis by simp
    next
      case same: True
      have step: "sig_comparison_loop da db ndataa i = sig_comparison_loop da db ndataa (i + 1)"
        using True same
        by (subst sig_comparison_loop.simps) (simp add: Let_def gcry_mpi_cmp_eq_0)
      have ih: "(sig_comparison_loop da db ndataa (i + 1) = 0) =
                (\<forall>j. nat (i + 1) \<le> j \<and> int j < ndataa \<longrightarrow> da ! j = db ! j)"
        using "1.IH" [OF True refl] same "1.prems" by (simp add: gcry_mpi_cmp_eq_0)
      have "(\<forall>j. nat (i + 1) \<le> j \<and> int j < ndataa \<longrightarrow> da ! j = db ! j) =
            (\<forall>j. nat i \<le> j \<and> int j < ndataa \<longrightarrow> da ! j = db ! j)"
      proof (intro iffI allI impI)
        fix j
        assume a: "\<forall>j. nat (i + 1) \<le> j \<and> int j < ndataa \<longrightarrow> da ! j = db ! j"
          and b: "nat i \<le> j \<and> int j < ndataa"
        show "da ! j = db ! j"
        proof (cases "j = nat i")
          case True
          then show ?thesis using same by simp
        next
          case False
          then have "nat (i + 1) \<le> j" using b "1.prems" by linarith
          then show ?thesis using a b by blast
        qed
      next
        fix j
        assume a: "\<forall>j. nat i \<le> j \<and> int j < ndataa \<longrightarrow> da ! j = db ! j"
          and b: "nat (i + 1) \<le> j \<and> int j < ndataa"
        have "nat i \<le> j" using b by linarith
        then show "da ! j = db ! j" using a b by blast
      qed
      then show ?thesis using step ih by simp
    qed
  qed
qed

text \<open>
  C2.  Two signature records whose payload counts stay inside their arrays compare equal
  exactly when their digest algorithms are equal, the payload counts of their public-key
  algorithms are equal and all corresponding payload values are equal; replacing the issuer
  key id, the timestamp and the signature class of either record changes nothing.
\<close>

theorem sig_comparison_equal_iff:
  assumes "wf_sig E a" and "wf_sig E b"
  shows "(sig_comparison E a b = 0) =
           (digest_algo a = digest_algo b
            \<and> pubkey_get_nsig E (pubkey_algo a) = pubkey_get_nsig E (pubkey_algo b)
            \<and> (\<forall>i. int i < pubkey_get_nsig E (pubkey_algo a)
                   \<longrightarrow> gcry_mpi_cmp (data a ! i) (data b ! i) = 0))
         \<and> sig_comparison E (a\<lparr>keyid := k1, timestamp := t1, sig_class := c1\<rparr>)
                             (b\<lparr>keyid := k2, timestamp := t2, sig_class := c2\<rparr>)
           = sig_comparison E a b"
proof -
  have "(sig_comparison_loop (data a) (data b) (pubkey_get_nsig E (pubkey_algo a)) 0 = 0) =
        (\<forall>i. int i < pubkey_get_nsig E (pubkey_algo a) \<longrightarrow> data a ! i = data b ! i)"
    using sig_comparison_loop_eq_0 [of 0] by simp
  then show ?thesis
    by (auto simp: sig_comparison_def Let_def gcry_mpi_cmp_eq_0)
qed

theorem sig_comparison_equal_iff_witness:
  "wf_sig ex_E (mk_sig (1, 1) 0x13 3 [5]) \<and> wf_sig ex_E (mk_sig (9, 9) 0x10 77 [5])
   \<and> sig_comparison ex_E (mk_sig (1, 1) 0x13 3 [5]) (mk_sig (9, 9) 0x10 77 [5]) = 0
   \<and> sig_comparison ex_E (mk_sig (1, 1) 0x13 3 [5]) (mk_sig (1, 1) 0x13 3 [6]) \<noteq> 0"
proof -
  have w: "wf_sig ex_E (mk_sig k c t [d])" for k c t d
    by (simp add: wf_sig_def ex_E_def ex_nsig_def mk_sig_def)
  have "sig_comparison ex_E (mk_sig (1, 1) 0x13 3 [5]) (mk_sig (9, 9) 0x10 77 [5]) = 0"
    using sig_comparison_equal_iff [OF w w, of "(1, 1)" "0x13" 3 5 "(9, 9)" "0x10" 77 5]
    by (simp add: mk_sig_def ex_E_def ex_nsig_def gcry_mpi_cmp_def)
  moreover have "sig_comparison ex_E (mk_sig (1, 1) 0x13 3 [5]) (mk_sig (1, 1) 0x13 3 [6]) \<noteq> 0"
    using sig_comparison_equal_iff [OF w w, of "(1, 1)" "0x13" 3 5 "(1, 1)" "0x13" 3 6]
    by (simp add: mk_sig_def ex_E_def ex_nsig_def gcry_mpi_cmp_def)
  ultimately show ?thesis using w by simp
qed

section \<open>Rules for loops\<close>

lemma loop_rule:
  assumes run: "loop step s = Some r"
    and init: "I s"
    and nxt: "\<And>s s'. I s \<Longrightarrow> step s = Some (Next s') \<Longrightarrow> I s'"
    and fin: "\<And>s r. I s \<Longrightarrow> step s = Some (Done r) \<Longrightarrow> Q r"
  shows "Q r"
proof -
  have gen: "stp = step \<longrightarrow> I s \<longrightarrow> Q r" if "loop stp s = Some r" for stp s r
  proof (rule loop.raw_induct [where P = "\<lambda>stp s r. stp = step \<longrightarrow> I s \<longrightarrow> Q r", OF _ that])
    fix lp stp s r
    assume ih: "\<And>s b y. lp s b = Some y \<Longrightarrow> s = step \<longrightarrow> I b \<longrightarrow> Q y"
      and eq: "(case stp s of None \<Rightarrow> None
                | Some c \<Rightarrow> (case c of Next s' \<Rightarrow> lp stp s' | Done r \<Rightarrow> Some r)) = Some r"
    show "stp = step \<longrightarrow> I s \<longrightarrow> Q r"
    proof (intro impI)
      assume e: "stp = step" and i: "I s"
      show "Q r"
      proof (cases "step s")
        case None
        then show ?thesis using eq e by simp
      next
        case (Some c)
        show ?thesis
        proof (cases c)
          case (Next s')
          then have "lp stp s' = Some r" using eq Some e by simp
          moreover have "I s'" using nxt [OF i] Some Next by simp
          ultimately show ?thesis using ih e by blast
        next
          case (Done r')
          then have "r' = r" using eq Some e by simp
          then show ?thesis using fin [OF i] Some Done by simp
        qed
      qed
    qed
  qed
  show ?thesis using gen [OF run] init by simp
qed

lemma loop_total:
  fixes m :: "'s \<Rightarrow> nat"
  assumes init: "I s"
    and stp: "\<And>s. I s \<Longrightarrow>
       (\<exists>s'. step s = Some (Next s') \<and> I s' \<and> m s' < m s) \<or> (\<exists>r. step s = Some (Done r) \<and> Q r)"
  shows "\<exists>r. loop step s = Some r \<and> Q r"
  using init
proof (induction "m s" arbitrary: s rule: less_induct)
  case less
  from stp [OF less.prems] show ?case
  proof
    assume "\<exists>s'. step s = Some (Next s') \<and> I s' \<and> m s' < m s"
    then obtain s' where s': "step s = Some (Next s')" "I s'" "m s' < m s" by blast
    from less.hyps [OF s'(3) s'(2)] obtain r where "loop step s' = Some r" "Q r" by blast
    then show ?thesis using s'(1) by (subst loop.simps) simp
  next
    assume "\<exists>r. step s = Some (Done r) \<and> Q r"
    then show ?thesis by (subst loop.simps) auto
  qed
qed

lemma loop_Next: "step s = Some (Next s') \<Longrightarrow> loop step s = loop step s'"
  by (subst loop.simps) simp

lemma loop_Done: "step s = Some (Done r) \<Longrightarrow> loop step s = Some r"
  by (subst loop.simps) simp

lemma loop_None: "step s = None \<Longrightarrow> loop step s = None"
  by (subst loop.simps) simp

lemma bind_res_simps [simp]:
  "bind_res None f = None"
  "bind_res (Some (Inl e)) f = Some (Inl e)"
  "bind_res (Some (Inr x)) f = f x"
  by (simp_all add: bind_res_def)

lemma bind_res_Some:
  "(bind_res m f = Some (Inr y)) = (\<exists>x. m = Some (Inr x) \<and> f x = Some (Inr y))"
  by (auto simp: bind_res_def split: option.splits sum.splits)

section \<open>The shape of the assignments\<close>

lemma res_inv_simps [simp]: "res_inv P (Inl e)" "res_inv P (Inr s) = P s"
  by (simp_all add: res_inv_def)

lemma ctl_inv_simps [simp]:
  "ctl_inv P (Next s) = P s" "ctl_inv P (Done r) = res_inv P r"
  by (simp_all add: ctl_inv_def)

lemma advance_Some:
  "mem s a = Some nd \<Longrightarrow>
   advance a nx s = Some (Next (s\<lparr>n_prevp := (if nextp nd = nx then Next_of a else n_prevp s), n_node := nx\<rparr>))"
  by (simp add: advance_def)

lemma store_ptr_shape:
  "store_ptr p v s = Inr s' \<Longrightarrow> \<exists>h' k'. s' = s\<lparr>mem := h', kb := k'\<rparr>"
proof (cases p)
  case Kb_var
  assume "store_ptr p v s = Inr s'"
  with Kb_var have "s' = s\<lparr>mem := mem s, kb := v\<rparr>" by (simp add: store_ptr_def)
  then show ?thesis by blast
next
  case (Next_of a)
  assume "store_ptr p v s = Inr s'"
  with Next_of obtain nd where "s' = s\<lparr>mem := (mem s)(a \<mapsto> nd\<lparr>nextp := v\<rparr>), kb := kb s\<rparr>"
    by (auto simp: store_ptr_def split: option.split_asm)
  then show ?thesis by blast
qed

lemma relocate_Inr:
  "relocate a t s = Inr s' \<Longrightarrow>
   \<exists>na s1 nt s2 s3. mem s a = Some na \<and> store_ptr (n_prevp s) (nextp na) s = Inr s1
     \<and> mem s1 t = Some nt \<and> store_ptr (Next_of a) (nextp nt) s1 = Inr s2
     \<and> store_ptr (Next_of t) (Some a) s2 = Inr s3
     \<and> s' = s3\<lparr>reordered := reordered s3 + 1, modified := 1\<rparr>"
  unfolding relocate_def by (auto split: option.split_asm sum.split_asm)

lemma relocate_shape:
  assumes "relocate a t s = Inr s'"
  shows "\<exists>h' k'. s' = s\<lparr>mem := h', kb := k', reordered := reordered s + 1, modified := 1\<rparr>"
  using relocate_Inr [OF assms]
  apply (auto dest!: store_ptr_shape)
  apply (rule exI, rule exI, rule refl)
  done

lemma remove_node_Inr:
  assumes "remove_node a s = Some (Inr s')"
  obtains prevp na s1 where "loop (unlink_step (mem s) a) (Kb_var, kb s) = Some (Inr prevp)"
    and "mem s a = Some na" and "store_ptr prevp (nextp na) s = Inr s1"
    and "s' = s1\<lparr>mem := (mem s1)(a := None), dups := dups s1 + 1, modified := 1\<rparr>"
proof -
  from assms obtain prevp where 1: "loop (unlink_step (mem s) a) (Kb_var, kb s) = Some (Inr prevp)"
    and 2: "(case mem s a of None \<Rightarrow> Some (Inl Mem_fault)
             | Some na \<Rightarrow>
                 (case store_ptr prevp (nextp na) s of Inl e \<Rightarrow> Some (Inl e)
                  | Inr s1 \<Rightarrow> Some (Inr (s1\<lparr>mem := (mem s1)(a := None), dups := dups s1 + 1,
                                               modified := 1\<rparr>)))) = Some (Inr s')"
    unfolding remove_node_def bind_res_Some by blast
  from 2 obtain na where 3: "mem s a = Some na" by (cases "mem s a") auto
  from 2 3 obtain s1 where 4: "store_ptr prevp (nextp na) s = Inr s1"
    by (cases "store_ptr prevp (nextp na) s") auto
  from 2 3 4 have "s' = s1\<lparr>mem := (mem s1)(a := None), dups := dups s1 + 1, modified := 1\<rparr>"
    by simp
  with 1 3 4 that show thesis by blast
qed

section \<open>The return value\<close>

lemma store_ptr_counters:
  "store_ptr p v s = Inr s' \<Longrightarrow>
   dups s' = dups s \<and> reordered s' = reordered s \<and> modified s' = modified s
   \<and> missing_issuer s' = missing_issuer s \<and> bad_signature s' = bad_signature s
   \<and> missing_selfsig s' = missing_selfsig s \<and> tty s' = tty s"
  by (auto simp: store_ptr_def split: ptrloc.splits option.splits)

lemma remove_node_mod_inv: "remove_node a s = Some (Inr s') \<Longrightarrow> mod_inv s'"
  by (erule remove_node_Inr) (simp add: mod_inv_def)

lemma dedup_step_mod_inv:
  "dedup_step E nsigs (sigs, last_i, i, s) = Some c \<Longrightarrow> mod_inv s \<Longrightarrow>
   (case c of Next (sigs', last_i', i', s') \<Rightarrow> mod_inv s' | Done r \<Rightarrow> res_inv mod_inv r)"
  unfolding dedup_step_def
  by (auto split: if_split_asm option.split_asm packet.split_asm sum.split_asm
           dest: remove_node_mod_inv)

lemma dedup_loop_mod_inv:
  assumes "loop (dedup_step E nsigs) (sigs, last_i, i, s) = Some r" and "mod_inv s"
  shows "res_inv mod_inv r"
proof (rule loop_rule [OF assms(1), where I = "\<lambda>(sigs, last_i, i, s). mod_inv s"])
  show "case (sigs, last_i, i, s) of (sigs, last_i, i, s) \<Rightarrow> mod_inv s" using assms(2) by simp
next
  fix st st'
  assume "case st of (sigs, last_i, i, s) \<Rightarrow> mod_inv s" "dedup_step E nsigs st = Some (Next st')"
  then show "case st' of (sigs, last_i, i, s) \<Rightarrow> mod_inv s"
    using dedup_step_mod_inv [of E nsigs _ _ _ _ "Next st'"] by (cases st; cases st') auto
next
  fix st r
  assume "case st of (sigs, last_i, i, s) \<Rightarrow> mod_inv s" "dedup_step E nsigs st = Some (Done r)"
  then show "res_inv mod_inv r"
    using dedup_step_mod_inv [of E nsigs _ _ _ _ "Done r"] by (cases st) auto
qed

lemma dedup_pass_mod_inv:
  assumes "dedup_pass E s = Some (Inr (r, s'))" and "mod_inv s"
  shows "mod_inv s' \<and> (case r of None \<Rightarrow> modified s' = modified s | Some s1 \<Rightarrow> s1 = s')"
  using assms
  by (auto simp: dedup_pass_def bind_res_Some mod_inv_def [of "s\<lparr>tty := _\<rparr>"] split: if_splits
           dest!: dedup_loop_mod_inv) (simp_all add: mod_inv_def)



lemma mod_inv_upd [simp]:
  "mod_inv (s\<lparr>tty := x\<rparr>) = mod_inv s"
  "mod_inv (s\<lparr>issuer := i\<rparr>) = mod_inv s"
  "mod_inv (s\<lparr>current_component := c\<rparr>) = mod_inv s"
  "mod_inv (s\<lparr>bad_signature := b\<rparr>) = mod_inv s"
  "mod_inv (s\<lparr>missing_issuer := mi\<rparr>) = mod_inv s"
  "mod_inv (s\<lparr>missing_selfsig := ms\<rparr>) = mod_inv s"
  "mod_inv (s\<lparr>has_selfsig := hs\<rparr>) = mod_inv s"
  "mod_inv (s\<lparr>n_node := n\<rparr>) = mod_inv s"
  "mod_inv (s\<lparr>n_prevp := pp\<rparr>) = mod_inv s"
  by (simp_all add: mod_inv_def)









section \<open>Well-formed keyblocks and the loops that only read\<close>

lemma islist_Cons_iff [simp]:
  "islist h p (a # as) = (p = Some a \<and> (\<exists>nd. h a = Some nd \<and> islist h (nextp nd) as))"
  by (auto split: option.splits)

declare islist.simps(2) [simp del]

lemma islist_Some:
  "islist h (Some a) xs = (\<exists>nd as. xs = a # as \<and> h a = Some nd \<and> islist h (nextp nd) as)"
  by (cases xs) (auto split: option.splits)

lemma islist_None [simp]: "islist h None xs = (xs = [])"
  by (cases xs) auto

lemma islist_unique: "islist h p xs \<Longrightarrow> islist h p ys \<Longrightarrow> xs = ys"
proof (induction xs arbitrary: p ys)
  case Nil
  then show ?case by (cases ys) auto
next
  case (Cons a xs)
  then show ?case by (cases ys) (auto split: option.splits)
qed

lemma count_loop:
  "islist h p xs \<Longrightarrow>
   loop (count_step h) (p, c) = Some (Inr (c + length (filter (live_sig h) xs)))"
proof (induction xs arbitrary: p c)
  case Nil
  then have "count_step h (p, c) = Some (Done (Inr c))" by (simp add: count_step_def)
  then show ?case by (simp add: loop_Done)
next
  case (Cons a xs)
  then obtain nd where nd: "p = Some a" "h a = Some nd" "islist h (nextp nd) xs"
    by auto
  have "count_step h (p, c) = Some (Next (nextp nd, if live_sig h a then c + 1 else c))"
    using nd by (simp add: count_step_def live_sig_def)
  then show ?case using Cons.IH [OF nd(3)] by (simp add: loop_Next)
qed

lemma collect_loop:
  "islist h p xs \<Longrightarrow> length acc + length (filter (live_sig h) xs) = nsigs \<Longrightarrow>
   loop (collect_step h nsigs) (p, acc) = Some (Inr (acc @ filter (live_sig h) xs))"
proof (induction xs arbitrary: p acc)
  case Nil
  then have "collect_step h nsigs (p, acc) = Some (Done (Inr acc))"
    by (simp add: collect_step_def)
  then show ?case by (simp add: loop_Done)
next
  case (Cons a xs)
  then obtain nd where nd: "p = Some a" "h a = Some nd" "islist h (nextp nd) xs"
    by auto
  show ?case
  proof (cases "live_sig h a")
    case True
    then have len: "length (acc @ [a]) + length (filter (live_sig h) xs) = nsigs"
      using Cons.prems(2) by simp
    have "collect_step h nsigs (p, acc) = Some (Next (nextp nd, acc @ [a]))"
      using nd True len by (simp add: collect_step_def live_sig_def)
    then show ?thesis using Cons.IH [OF nd(3) len] True by (simp add: loop_Next)
  next
    case False
    then have len: "length acc + length (filter (live_sig h) xs) = nsigs"
      using Cons.prems(2) by simp
    have "collect_step h nsigs (p, acc) = Some (Next (nextp nd, acc))"
      using nd False by (auto simp: collect_step_def live_sig_def)
    then show ?thesis using Cons.IH [OF nd(3) len] False by (simp add: loop_Next)
  qed
qed

section \<open>Failure to allocate the array\<close>

text \<open>
  C7, as amended.  When the array for the duplicate search cannot be allocated, the run
  ends at once: it writes the allocation error to the log, leaves the keyblock and all
  counters as they were, and returns 0.
\<close>

theorem allocation_failure_returns_zero:
  assumes "islist h k xs" and "k = Some a" and "h a = Some nd" and "pkt nd = PKT_PUBLIC_KEY pk"
    and "filter (live_sig h) xs \<noteq> []"
    and "\<not> xtrycalloc E (int (length (filter (live_sig h) xs)))"
  shows "key_check_all_keysigs E h k only_selected only_selfsigs
         = Some (Inr (0, (init_locals h k)\<lparr>tty := [Log_error_allocating_memory]\<rparr>))"
proof -
  have "loop (count_step h) (k, 0) = Some (Inr (length (filter (live_sig h) xs)))"
    using count_loop [OF assms(1), of 0] by simp
  then have "dedup_pass E (init_locals h k)
             = Some (Inr (None, (init_locals h k)\<lparr>tty := [Log_error_allocating_memory]\<rparr>))"
    using assms(5,6) by (simp add: dedup_pass_def init_locals_def)
  then show ?thesis
    using assms(2,3,4) by (simp add: key_check_all_keysigs_def)
qed

theorem allocation_failure_returns_zero_witness:
  "islist (mk_heap 0 ex_kb_clean) (Some 0) [0, 1, 2]
   \<and> filter (live_sig (mk_heap 0 ex_kb_clean)) [0, 1, 2] = [2]
   \<and> \<not> xtrycalloc ex_E_nomem 1
   \<and> key_check_all_keysigs ex_E_nomem (mk_heap 0 ex_kb_clean) (Some 0) False False
     = Some (Inr (0, (init_locals (mk_heap 0 ex_kb_clean) (Some 0))
                       \<lparr>tty := [Log_error_allocating_memory]\<rparr>))"
proof -
  have l: "islist (mk_heap 0 ex_kb_clean) (Some 0) [0, 1, 2]"
    by (simp add: ex_kb_clean_def mk_node_def)
  have f: "filter (live_sig (mk_heap 0 ex_kb_clean)) [0, 1, 2] = [2]"
    by (simp add: ex_kb_clean_def mk_node_def live_sig_def is_signature_def)
  have a: "\<not> xtrycalloc ex_E_nomem 1" by (simp add: ex_E_nomem_def)
  have n: "mk_heap 0 ex_kb_clean 0 = Some (mk_node (PKT_PUBLIC_KEY ex_pk) (Some 1))"
    by (simp add: ex_kb_clean_def)
  have "key_check_all_keysigs ex_E_nomem (mk_heap 0 ex_kb_clean) (Some 0) False False
     = Some (Inr (0, (init_locals (mk_heap 0 ex_kb_clean) (Some 0))
                       \<lparr>tty := [Log_error_allocating_memory]\<rparr>))"
    by (rule allocation_failure_returns_zero [OF l refl n, of ex_pk])
       (use f a in \<open>simp_all add: mk_node_def\<close>)
  with l f a show ?thesis by blast
qed

text \<open>
  The claim as stated fails: the caller receives the value 0 when the allocation fails, the
  same value as for a keyblock that needs no repair.
\<close>

theorem allocation_failure_not_distinct:
  "return_value (key_check_all_keysigs ex_E_nomem (mk_heap 0 ex_kb_clean) (Some 0) False False)
     = Some 0
   \<and> return_value (key_check_all_keysigs ex_E (mk_heap 0 ex_kb_clean) (Some 0) False False)
     = Some 0"
  by code_simp

section \<open>The search for the signed component\<close>

lemma search_scan:
  "islist h p ys \<Longrightarrow>
   loop (search_step E h k cc iss sig pk) (p, True)
   = Some (Inr (find (verifies E h iss sig pk) (filter (\<lambda>t. Some t \<noteq> cc) ys)))"
proof (induction ys arbitrary: p)
  case Nil
  then have "search_step E h k cc iss sig pk (p, True) = Some (Done (Inr None))"
    by (simp add: search_step_def)
  then show ?case by (simp add: loop_Done)
next
  case (Cons t ys)
  then obtain nt where nt: "p = Some t" "h t = Some nt" "islist h (nextp nt) ys" by auto
  show ?case
  proof (cases "Some t \<noteq> cc \<and> verifies E h iss sig pk t")
    case True
    then have "search_step E h k cc iss sig pk (p, True) = Some (Done (Inr (Some t)))"
      using nt by (auto simp: search_step_def verifies_def)
    then show ?thesis using True by (simp add: loop_Done)
  next
    case False
    then have "search_step E h k cc iss sig pk (p, True) = Some (Next (nextp nt, True))"
      using nt by (auto simp: search_step_def verifies_def)
    then show ?thesis using False Cons.IH [OF nt(3)] by (auto simp: loop_Next)
  qed
qed

lemma search_loop:
  assumes "islist h k xs" and "h c = Some nc"
  shows "loop (search_step E h k (Some c) iss sig pk) (Some c, False)
         = Some (Inr (find (verifies E h iss sig pk) (c # filter (\<lambda>t. t \<noteq> c) xs)))"
proof (cases "verifies E h iss sig pk c")
  case True
  then have "search_step E h k (Some c) iss sig pk (Some c, False) = Some (Done (Inr (Some c)))"
    using assms(2) by (auto simp: search_step_def verifies_def)
  then show ?thesis using True by (simp add: loop_Done)
next
  case False
  then have "search_step E h k (Some c) iss sig pk (Some c, False) = Some (Next (k, True))"
    using assms(2) by (auto simp: search_step_def verifies_def)
  then show ?thesis using False search_scan [OF assms(1), of E k "Some c" iss sig pk]
    by (simp add: loop_Next)
qed

lemma find_Some_verifies: "find P xs = Some t \<Longrightarrow> P t \<and> t \<in> set xs"
  by (induction xs) (auto split: if_split_asm)

text \<open>
  C10.  In a well-formed keyblock the search of lines 351 to 367 returns the first node,
  among the current component followed by all other nodes from the head, that is not
  deleted and over whose packet the signature verifies, whatever the type of that packet.
  If the verification succeeds on no packet but a key or a user id, a node that the search
  returns holds a key or a user id.  Without that, the assertion of line 386 can fail: when
  the node found is not the current component and holds another kind of packet, the round
  ends in the failed assertion.
\<close>

theorem search_tests_every_node:
  assumes "islist h k xs" and "h c = Some nc"
  shows "loop (search_step E h k (Some c) iss sig pk) (Some c, False)
           = Some (Inr (find (verifies E h iss sig pk) (c # filter (\<lambda>t. t \<noteq> c) xs)))
         \<and> ((\<forall>p. check_signature_over_key_or_uid E iss sig pk p = 0 \<longrightarrow> is_component p)
             \<longrightarrow> (\<forall>t nt. find (verifies E h iss sig pk) (c # filter (\<lambda>t. t \<noteq> c) xs) = Some t
                    \<longrightarrow> h t = Some nt \<longrightarrow> is_component (pkt nt)))
         \<and> (\<forall>s t nt a nx.
               mem s = h \<and> kb s = k \<and> current_component s = Some c
               \<and> openpgp_pk_test_algo E (pubkey_algo sig) = 0
               \<and> openpgp_md_test_algo E (digest_algo sig) = 0
               \<and> find (verifies E h iss sig pk) (c # filter (\<lambda>t. t \<noteq> c) xs) = Some t
               \<and> t \<noteq> c \<and> h t = Some nt \<and> \<not> is_component (pkt nt)
               \<longrightarrow> place_signature E pk a nx sig iss s = Some (Done (Inl Assert_failed)))"
proof (intro conjI allI impI)
  show "loop (search_step E h k (Some c) iss sig pk) (Some c, False)
           = Some (Inr (find (verifies E h iss sig pk) (c # filter (\<lambda>t. t \<noteq> c) xs)))"
    by (rule search_loop [OF assms])
next
  fix t nt
  assume "\<forall>p. check_signature_over_key_or_uid E iss sig pk p = 0 \<longrightarrow> is_component p"
    and "find (verifies E h iss sig pk) (c # filter (\<lambda>t. t \<noteq> c) xs) = Some t"
    and "h t = Some nt"
  then have "verifies E h iss sig pk t" "h t = Some nt"
    "\<forall>p. check_signature_over_key_or_uid E iss sig pk p = 0 \<longrightarrow> is_component p"
    using find_Some_verifies [of "verifies E h iss sig pk" "c # filter (\<lambda>t. t \<noteq> c) xs" t] by auto
  then show "is_component (pkt nt)"
    by (simp add: verifies_def)
next
  fix s :: locals and t nt a nx
  assume a: "mem s = h \<and> kb s = k \<and> current_component s = Some c
               \<and> openpgp_pk_test_algo E (pubkey_algo sig) = 0
               \<and> openpgp_md_test_algo E (digest_algo sig) = 0
               \<and> find (verifies E h iss sig pk) (c # filter (\<lambda>t. t \<noteq> c) xs) = Some t
               \<and> t \<noteq> c \<and> h t = Some nt \<and> \<not> is_component (pkt nt)"
  then have "loop (search_step E (mem s) (kb s) (current_component s) iss sig pk)
               (current_component s, False) = Some (Inr (Some t))"
    using search_loop [OF assms, of E iss sig pk] by simp
  then show "place_signature E pk a nx sig iss s = Some (Done (Inl Assert_failed))"
    using a by (simp add: place_signature_def)
qed

theorem search_tests_every_node_witness:
  "islist (mk_heap 0 ex_kb_clean) (Some 0) [0, 1, 2]
   \<and> mk_heap 0 ex_kb_clean 1 = Some (mk_node (PKT_USER_ID \<lparr>name = ''abc''\<rparr>) (Some 2))
   \<and> loop (search_step ex_E_loose (mk_heap 0 ex_kb_clean) (Some 0) (Some 1) ex_pk
             (mk_sig (1, 1) 0x13 3 [5]) ex_pk) (Some 1, False) = Some (Inr (Some 2))
   \<and> failure (key_check_all_keysigs ex_E_loose (mk_heap 0 ex_kb_clean) (Some 0) False False)
     = Some Assert_failed"
proof -
  have l: "islist (mk_heap 0 ex_kb_clean) (Some 0) [0, 1, 2]"
    by (simp add: ex_kb_clean_def mk_node_def)
  have n: "mk_heap 0 ex_kb_clean 1 = Some (mk_node (PKT_USER_ID \<lparr>name = ''abc''\<rparr>) (Some 2))"
    by code_simp
  have f: "find (verifies ex_E_loose (mk_heap 0 ex_kb_clean) ex_pk (mk_sig (1, 1) 0x13 3 [5]) ex_pk)
             (1 # filter (\<lambda>t. t \<noteq> 1) [0, 1, 2]) = Some 2"
    by (simp add: verifies_def ex_kb_clean_def mk_node_def ex_E_loose_def is_signature_def)
  have "loop (search_step ex_E_loose (mk_heap 0 ex_kb_clean) (Some 0) (Some 1) ex_pk
             (mk_sig (1, 1) 0x13 3 [5]) ex_pk) (Some 1, False) = Some (Inr (Some 2))"
    using search_tests_every_node [OF l n, of ex_E_loose ex_pk "mk_sig (1, 1) 0x13 3 [5]" ex_pk] f
    by simp
  moreover have "failure (key_check_all_keysigs ex_E_loose (mk_heap 0 ex_kb_clean) (Some 0) False False)
     = Some Assert_failed"
    by code_simp
  ultimately show ?thesis using l n by blast
qed

section \<open>The audit of self-signatures\<close>

lemma is_signature_not_component [simp]: "is_signature p \<Longrightarrow> \<not> is_component p"
  by (cases p) (auto simp: is_signature_def is_component_def)

lemma missing_selfsigs_sig [simp]:
  "is_signature p \<Longrightarrow> missing_selfsigs pk (p # ps) = missing_selfsigs pk ps"
  by (cases p) (auto simp: is_signature_def is_component_def)

lemma missing_selfsigs_dropWhile [simp]:
  "missing_selfsigs pk (dropWhile is_signature ps) = missing_selfsigs pk ps"
  by (induction ps) auto

lemma audit_frame_refl [simp]: "audit_frame s s"
  by (simp add: audit_frame_def)

lemma audit_frame_trans: "audit_frame s s1 \<Longrightarrow> audit_frame s1 s' \<Longrightarrow> audit_frame s s'"
  by (simp add: audit_frame_def)

lemma audit_frame_upd [simp]:
  "audit_frame s (s'\<lparr>n_node := n\<rparr>) = audit_frame s s'"
  "audit_frame s (s'\<lparr>current_component := c\<rparr>) = audit_frame s s'"
  "audit_frame s (s'\<lparr>has_selfsig := hs\<rparr>) = audit_frame s s'"
  "audit_frame s (s'\<lparr>missing_selfsig := m\<rparr>) = audit_frame s s'"
  by (simp_all add: audit_frame_def)

lemma open_missing_True [simp]: "open_missing pk p True ps = 0"
  by (simp add: open_missing_def)

lemma open_missing_sig:
  "is_signature q \<Longrightarrow>
   open_missing pk p hs (q # ps) = (if accepted_selfsig pk p q then 0 else open_missing pk p hs ps)"
  by (simp add: open_missing_def)

lemma open_missing_other:
  "\<not> is_signature q \<Longrightarrow> open_missing pk p hs (q # ps) = (if hs then 0 else 1)"
  by (simp add: open_missing_def)

lemma pending_None [simp]: "pending pk h None hs ps = 0"
  by (simp add: pending_def)

lemma pending_Some: "h c = Some nc \<Longrightarrow> pending pk h (Some c) hs ps = open_missing pk (pkt nc) hs ps"
  by (simp add: pending_def)

lemma node_pkts_Cons:
  "h a = Some nd \<Longrightarrow>
   node_pkts h (a # ys) = (if deleted nd then node_pkts h ys else pkt nd # node_pkts h ys)"
  by (simp add: node_pkts_def)

lemma node_pkts_Nil [simp]: "node_pkts h [] = []"
  by (simp add: node_pkts_def)

lemma selfsig_tests_accepted:
  "is_component p \<Longrightarrow>
   selfsig_tests p (sig_class sig) False
   = (case p of
        PKT_PUBLIC_KEY _ \<Rightarrow> sig_class sig = 0x1f \<or> sig_class sig = 0x20
      | PKT_PUBLIC_SUBKEY _ \<Rightarrow> sig_class sig = 0x18 \<or> sig_class sig = 0x28
      | PKT_USER_ID _ \<Rightarrow> sig_class sig \<in> {0x10, 0x11, 0x12, 0x13, 0x30}
      | _ \<Rightarrow> False)"
  by (cases p) (auto simp: selfsig_tests_def Let_def)

lemma audit_loop:
  assumes "islist (mem s) (n_node s) ys"
    and "\<And>c. current_component s = Some c \<Longrightarrow> \<exists>nc. mem s c = Some nc \<and> is_component (pkt nc)"
  shows "\<exists>s'. loop (audit_step pk) s = Some (Inr s')
           \<and> missing_selfsig s' = missing_selfsig s
                + pending pk (mem s) (current_component s) (has_selfsig s) (node_pkts (mem s) ys)
                + missing_selfsigs pk (node_pkts (mem s) ys)
           \<and> audit_frame s s'"
  using assms
proof (induction ys arbitrary: s)
  case Nil
  then have n: "n_node s = None" by simp
  then have "audit_step pk s = Some (Done (Inr s))" by (simp add: audit_step_def)
  then have "loop (audit_step pk) s = Some (Inr s)" by (simp add: loop_Done)
  then show ?case
    by (auto simp: pending_def open_missing_def split: option.splits)
next
  case (Cons a ys)
  then obtain nd where nd: "n_node s = Some a" "mem s a = Some nd" "islist (mem s) (nextp nd) ys"
    by auto
  let ?ps = "node_pkts (mem s) ys"
  have step: "\<exists>s1. audit_step pk s = Some (Next s1) \<and> mem s1 = mem s \<and> n_node s1 = nextp nd
     \<and> audit_frame s s1
     \<and> (\<forall>c. current_component s1 = Some c \<longrightarrow> (\<exists>nc. mem s c = Some nc \<and> is_component (pkt nc)))
     \<and> missing_selfsig s1 + pending pk (mem s) (current_component s1) (has_selfsig s1) ?ps
           + missing_selfsigs pk ?ps
         = missing_selfsig s
           + pending pk (mem s) (current_component s) (has_selfsig s) (node_pkts (mem s) (a # ys))
           + missing_selfsigs pk (node_pkts (mem s) (a # ys))"
  proof (cases "deleted nd")
    case True
    then have "audit_step pk s = Some (Next (s\<lparr>n_node := nextp nd\<rparr>))"
      using nd by (simp add: audit_step_def)
    then show ?thesis using True nd Cons.prems(2) by (simp add: node_pkts_Cons)
  next
    case live: False
    have P: "node_pkts (mem s) (a # ys) = pkt nd # ?ps" using nd live by (simp add: node_pkts_Cons)
    have closes: "pending pk (mem s) (current_component s) (has_selfsig s) (pkt nd # ?ps)
                  = (if current_component s \<noteq> None \<and> \<not> has_selfsig s then 1 else 0)"
      if "\<not> is_signature (pkt nd)"
    proof (cases "current_component s")
      case None
      then show ?thesis by simp
    next
      case (Some c)
      with Cons.prems(2) obtain nc where "mem s c = Some nc" by blast
      then show ?thesis using Some that by (simp add: pending_Some open_missing_other)
    qed
    show ?thesis
    proof (cases "is_component (pkt nd)")
      case True
      then have ns: "\<not> is_signature (pkt nd)" by auto
      have "audit_step pk s = Some (Next ((audit_component a s)\<lparr>n_node := nextp nd\<rparr>))"
        using nd live True by (cases "pkt nd") (auto simp: audit_step_def is_component_def)
      then show ?thesis
        using True nd P closes [OF ns]
        by (auto simp: audit_component_def Let_def pending_Some)
    next
      case nc: False
      show ?thesis
      proof (cases "pkt nd")
        case (PKT_OTHER t)
        then have ns: "\<not> is_signature (pkt nd)" by (simp add: is_signature_def)
        have "audit_step pk s = Some (Next ((if current_component s \<noteq> None \<and> \<not> has_selfsig s
                              then s\<lparr>missing_selfsig := missing_selfsig s + 1\<rparr> else s)
                             \<lparr>current_component := None, n_node := nextp nd\<rparr>))"
          using nd live PKT_OTHER by (simp add: audit_step_def)
        then show ?thesis
          using nc nd P closes [OF ns] by auto
      next
        case (PKT_SIGNATURE sig)
        then have isg: "is_signature (pkt nd)" by (simp add: is_signature_def)
        show ?thesis
        proof (cases "current_component s")
          case None
          then have "audit_step pk s = Some (Next (s\<lparr>n_node := nextp nd\<rparr>))"
            using nd live PKT_SIGNATURE by (simp add: audit_step_def)
          then show ?thesis using None P isg by simp
        next
          case (Some c)
          with Cons.prems(2) obtain ncc where ncc: "mem s c = Some ncc" "is_component (pkt ncc)"
            by blast
          show ?thesis
          proof (cases "has_selfsig s")
            case True
            then have "audit_step pk s = Some (Next (s\<lparr>n_node := nextp nd\<rparr>))"
              using nd live PKT_SIGNATURE Some by (simp add: audit_step_def)
            then show ?thesis using Some P isg True ncc by (auto simp: pending_Some)
          next
            case False
            have acc: "accepted_selfsig pk (pkt ncc) (pkt nd)
                       = (checked sig \<and> valid sig \<and> keyid_cmp (pk_keyid pk) (keyid sig) = 0
                          \<and> selfsig_tests (pkt ncc) (sig_class sig) False)"
              using PKT_SIGNATURE selfsig_tests_accepted [OF ncc(2), of sig]
              by (auto simp: accepted_selfsig_def keyid_cmp_def)
            have "audit_step pk s
                  = Some (Next (s\<lparr>has_selfsig := accepted_selfsig pk (pkt ncc) (pkt nd),
                                    n_node := nextp nd\<rparr>))"
              using nd live PKT_SIGNATURE Some False ncc acc
              by (auto simp: audit_step_def)
            then show ?thesis
              using Some P isg False ncc by (auto simp: pending_Some open_missing_sig)
          qed
        qed
      qed (use nc in \<open>simp_all add: is_component_def\<close>)
    qed
  qed
  then obtain s1 where s1: "audit_step pk s = Some (Next s1)" "mem s1 = mem s" "n_node s1 = nextp nd"
    "audit_frame s s1"
    "\<And>c. current_component s1 = Some c \<Longrightarrow> \<exists>nc. mem s1 c = Some nc \<and> is_component (pkt nc)"
    and eq: "missing_selfsig s1 + pending pk (mem s) (current_component s1) (has_selfsig s1) ?ps
           + missing_selfsigs pk ?ps
         = missing_selfsig s
           + pending pk (mem s) (current_component s) (has_selfsig s) (node_pkts (mem s) (a # ys))
           + missing_selfsigs pk (node_pkts (mem s) (a # ys))"
    by auto
  have "islist (mem s1) (n_node s1) ys" using nd s1 by simp
  from Cons.IH [OF this s1(5)] obtain s' where s': "loop (audit_step pk) s1 = Some (Inr s')"
    "missing_selfsig s' = missing_selfsig s1
                + pending pk (mem s1) (current_component s1) (has_selfsig s1) (node_pkts (mem s1) ys)
                + missing_selfsigs pk (node_pkts (mem s1) ys)"
    "audit_frame s1 s'" by blast
  have "loop (audit_step pk) s = Some (Inr s')" using s1(1) s'(1) by (simp add: loop_Next)
  moreover have "audit_frame s s'" using s1(4) s'(3) by (rule audit_frame_trans)
  ultimately show ?case using s'(2) eq s1(2) by auto
qed

text \<open>
  C5.  The third pass closes the count of a component only when it meets the next
  component (lines 565 and 566) or a packet of another kind (lines 609 and 610); after the
  loop nothing closes the count of the last component.  So the claim fails on the code: in
  the keyblock of a primary key with its direct-key signature followed by a user id that
  no signature certifies, the user id is the last component and the counter of missing
  self-signatures stays at 0, while the same keyblock with a subkey and its binding
  signature after the user id counts the user id: the counter is 1.  The comment of line
  546 says that the pass identifies the keys and user ids that do not have a
  self-signature.
\<close>

theorem audit_misses_last_component:
  "counters (key_check_all_keysigs ex_E (mk_heap 0 ex_kb_uid_last) (Some 0) False False)
     = Some (0, 0, 0, 0, 0, 0)
   \<and> counters (key_check_all_keysigs ex_E (mk_heap 0 ex_kb_uid_subkey) (Some 0) False False)
     = Some (0, 0, 0, 0, 0, 1)"
  by code_simp

section \<open>Segments of the keyblock and assignments to links\<close>

lemma path_Cons_iff [simp]:
  "path h p (a # as) q = (p = Some a \<and> (\<exists>nd. h a = Some nd \<and> path h (nextp nd) as q))"
  by (auto split: option.splits)

declare path.simps(2) [simp del]

lemma islist_path: "islist h p xs = path h p xs None"
  by (induction xs arbitrary: p) auto

lemma path_append: "path h p (xs @ ys) q = (\<exists>r. path h p xs r \<and> path h r ys q)"
  by (induction xs arbitrary: p) auto

lemma islist_append: "islist h p (xs @ ys) = (\<exists>r. path h p xs r \<and> islist h r ys)"
  by (simp add: islist_path path_append)

lemma path_frame: "(\<And>a. a \<in> set xs \<Longrightarrow> h' a = h a) \<Longrightarrow> path h' p xs q = path h p xs q"
  by (induction xs arbitrary: p) auto

lemma islist_frame: "(\<And>a. a \<in> set xs \<Longrightarrow> h' a = h a) \<Longrightarrow> islist h' p xs = islist h p xs"
  unfolding islist_path by (rule path_frame)

lemma islist_hd_notin_tl:
  assumes "h a = Some nd" and "islist h (nextp nd) as"
  shows "a \<notin> set as"
proof
  assume "a \<in> set as"
  then obtain us vs where as: "as = us @ a # vs" by (auto simp: in_set_conv_decomp)
  with assms(2) obtain r where "path h (nextp nd) us r" "islist h r (a # vs)"
    by (auto simp: islist_append)
  then have "islist h (nextp nd) vs" using assms(1) by auto
  with assms(2) have "as = vs" by (rule islist_unique)
  with as show False by simp
qed

lemma islist_distinct: "islist h p xs \<Longrightarrow> distinct xs"
  by (induction xs arbitrary: p) (auto dest: islist_hd_notin_tl)

lemma path_valid: "path h p xs q \<Longrightarrow> a \<in> set xs \<Longrightarrow> \<exists>nd. h a = Some nd"
  by (induction xs arbitrary: p) auto

lemma islist_valid: "islist h p xs \<Longrightarrow> a \<in> set xs \<Longrightarrow> \<exists>nd. h a = Some nd"
  by (simp add: islist_path path_valid)

lemma path_snoc:
  "path h p (xs @ [a]) q = (path h p xs (Some a) \<and> (\<exists>nd. h a = Some nd \<and> nextp nd = q))"
  by (auto simp: path_append)

lemma islist_head: "islist h p xs \<Longrightarrow> p = (case xs of [] \<Rightarrow> None | a # as \<Rightarrow> Some a)"
  by (cases xs) auto

lemma path_head: "path h p xs q \<Longrightarrow> xs \<noteq> [] \<Longrightarrow> p = Some (hd xs)"
  by (cases xs) auto

lemma upd_next_apply:
  "upd_next a v h b = (if b = a then map_option (\<lambda>nd. nd\<lparr>nextp := v\<rparr>) (h a) else h b)"
  by (auto simp: upd_next_def split: option.splits)

lemma content_upd_next [simp]: "content (upd_next a v h) = content h"
  by (rule ext) (auto simp: content_def upd_next_apply option.map_comp comp_def)

lemma path_upd_notin [simp]:
  "a \<notin> set xs \<Longrightarrow> path (upd_next a v h) p xs q = path h p xs q"
  by (rule path_frame) (auto simp: upd_next_apply)

lemma islist_upd_notin [simp]:
  "a \<notin> set xs \<Longrightarrow> islist (upd_next a v h) p xs = islist h p xs"
  by (simp add: islist_path)

lemma path_upd_last:
  "path h p (xs @ [a]) q \<Longrightarrow> a \<notin> set xs \<Longrightarrow> path (upd_next a v h) p (xs @ [a]) v"
  by (auto simp: path_snoc upd_next_apply)

lemma store_ptr_Next_of:
  "mem s a = Some nd \<Longrightarrow> store_ptr (Next_of a) v s = Inr (s\<lparr>mem := upd_next a v (mem s)\<rparr>)"
  by (simp add: store_ptr_def upd_next_def)

lemma store_ptr_Kb_var: "store_ptr Kb_var v s = Inr (s\<lparr>kb := v\<rparr>)"
  by (simp add: store_ptr_def)

lemma heap_frame_refl [simp]: "heap_frame s s"
  by (simp add: heap_frame_def)

lemma heap_frame_trans: "heap_frame s s1 \<Longrightarrow> heap_frame s1 s2 \<Longrightarrow> heap_frame s s2"
  by (simp add: heap_frame_def)

lemma heap_frame_upd [simp]:
  "heap_frame s (s'\<lparr>mem := h\<rparr>) = heap_frame s s'"
  "heap_frame s (s'\<lparr>kb := k\<rparr>) = heap_frame s s'"
  "heap_frame (s\<lparr>mem := h\<rparr>) s' = heap_frame s s'"
  "heap_frame (s\<lparr>kb := k\<rparr>) s' = heap_frame s s'"
  by (simp_all add: heap_frame_def)

lemma heap_frame_fields:
  assumes "heap_frame s s'"
  shows "n_node s' = n_node s" "n_prevp s' = n_prevp s" "issuer s' = issuer s"
    "current_component s' = current_component s" "has_selfsig s' = has_selfsig s"
    "dups s' = dups s" "missing_issuer s' = missing_issuer s" "reordered s' = reordered s"
    "bad_signature s' = bad_signature s" "missing_selfsig s' = missing_selfsig s"
    "modified s' = modified s" "tty s' = tty s"
  using assms by (simp_all add: heap_frame_def)

text \<open>Writing through the pointer that leads into the node after \<open>pre\<close>.\<close>

lemma store_ploc:
  assumes "path (mem s) (kb s) pre q" and "distinct pre"
  obtains s1 where "store_ptr (ploc pre) v s = Inr s1"
    and "path (mem s1) (kb s1) pre v" and "content (mem s1) = content (mem s)"
    and "\<And>b. b \<notin> set pre \<Longrightarrow> mem s1 b = mem s b"
    and "\<And>b. (mem s1 b = None) = (mem s b = None)"
    and "heap_frame s s1"
proof (cases "pre = []")
  case True
  then have "store_ptr (ploc pre) v s = Inr (s\<lparr>kb := v\<rparr>)"
    by (simp add: ploc_def store_ptr_Kb_var)
  then show ?thesis using True that [of "s\<lparr>kb := v\<rparr>"] by (simp add: heap_frame_def)
next
  case False
  then obtain us l where pre: "pre = us @ [l]" by (metis rev_exhaust)
  with assms obtain nd where l: "mem s l = Some nd" "l \<notin> set us" by (auto simp: path_snoc)
  have "store_ptr (ploc pre) v s = Inr (s\<lparr>mem := upd_next l v (mem s)\<rparr>)"
    using pre l by (simp add: ploc_def store_ptr_Next_of)
  moreover have "path (upd_next l v (mem s)) (kb s) pre v"
    using assms(1) l pre by (simp add: path_upd_last)
  ultimately show ?thesis
    using pre that [of "s\<lparr>mem := upd_next l v (mem s)\<rparr>"]
    by (auto simp: upd_next_apply heap_frame_def)
qed

lemma unlink_loop:
  "path h p pre (Some a) \<Longrightarrow> a \<notin> set pre \<Longrightarrow>
   loop (unlink_step h a) (pp, p) = Some (Inr (if pre = [] then pp else Next_of (last pre)))"
proof (induction pre arbitrary: pp p)
  case Nil
  then have "unlink_step h a (pp, p) = Some (Done (Inr pp))" by (simp add: unlink_step_def)
  then show ?case by (simp add: loop_Done)
next
  case (Cons b pre)
  then obtain nd where nd: "p = Some b" "h b = Some nd" "path h (nextp nd) pre (Some a)" "b \<noteq> a"
    by auto
  then have "unlink_step h a (pp, p) = Some (Next (Next_of b, nextp nd))"
    by (simp add: unlink_step_def)
  then show ?case using Cons.IH [OF nd(3), of "Next_of b"] Cons.prems(2)
    by (simp add: loop_Next)
qed

lemma remove_node_list:
  assumes l: "islist (mem s) (kb s) (pre @ a # post)"
  obtains s' where "remove_node a s = Some (Inr s')"
    and "islist (mem s') (kb s') (pre @ post)"
    and "mem s' a = None"
    and "\<And>b. b \<noteq> a \<Longrightarrow> content (mem s') b = content (mem s) b"
    and "heap_frame (s\<lparr>dups := dups s + 1, modified := 1\<rparr>) s'"
    and "dups s' = dups s + 1" and "modified s' = 1"
proof -
  from l have d: "distinct (pre @ a # post)" by (rule islist_distinct)
  from l obtain na where p: "path (mem s) (kb s) pre (Some a)" and na: "mem s a = Some na"
    and post: "islist (mem s) (nextp na) post"
    by (auto simp: islist_append)
  have u: "loop (unlink_step (mem s) a) (Kb_var, kb s) = Some (Inr (ploc pre))"
    using unlink_loop [OF p, of Kb_var] d by (simp add: ploc_def)
  from d have dp: "distinct pre" by simp
  from store_ploc [OF p dp, of "nextp na"] obtain s1 where
    s1: "store_ptr (ploc pre) (nextp na) s = Inr s1"
    "path (mem s1) (kb s1) pre (nextp na)" "content (mem s1) = content (mem s)"
    "\<And>b. b \<notin> set pre \<Longrightarrow> mem s1 b = mem s b"
    "heap_frame s s1"
    by metis
  let ?s' = "s1\<lparr>mem := (mem s1)(a := None), dups := dups s1 + 1, modified := 1\<rparr>"
  have r: "remove_node a s = Some (Inr ?s')"
    using u na s1(1) by (simp add: remove_node_def)
  have "islist (mem s1) (nextp na) post"
    using post s1(4) d by (subst islist_frame [of post _ "mem s"]) auto
  then have "islist (mem s1) (kb s1) (pre @ post)"
    using s1(2) by (auto simp: islist_append)
  then have 1: "islist (mem ?s') (kb ?s') (pre @ post)"
    using d by (subst islist_frame [of "pre @ post" _ "mem s1"]) auto
  have 2: "content (mem ?s') b = content (mem s) b" if "b \<noteq> a" for b
    using that s1(3) by (simp add: content_def fun_eq_iff)
  have 3: "heap_frame (s\<lparr>dups := dups s + 1, modified := 1\<rparr>) ?s'"
    using s1(5) by (simp add: heap_frame_def)
  show thesis
    using that [OF r 1 _ 2 3] heap_frame_fields [OF s1(5)] by simp
qed

section \<open>The scan for duplicates\<close>

lemma sig_at_content: "content h' b = content h b \<Longrightarrow> sig_at h' b = sig_at h b"
  by (cases "h b"; cases "h' b") (auto simp: content_def sig_at_def)

lemma kills_cong:
  "(\<And>a b. a \<in> set ys \<Longrightarrow> b \<in> set ys \<Longrightarrow> eq a b = eq' a b) \<Longrightarrow> kills eq ys = kills eq' ys"
  by (induction eq ys rule: kills.induct) auto

lemma kills_subset: "set (kills eq ys) \<subseteq> set (butlast ys)"
proof (induction eq ys rule: kills.induct)
  case (1 eq x y ys)
  have "set (kills eq (y # ys)) \<subseteq> set (butlast (y # ys))" using 1 by (cases "eq x y") auto
  then show ?case by auto
qed auto

lemma kills_subset_all: "set (kills eq ys) \<subseteq> set ys"
  using kills_subset [of eq ys] by (auto dest: in_set_butlastD)

lemma sig_at_SomeD:
  "sig_at h a = Some x \<Longrightarrow> \<exists>nd. h a = Some nd \<and> pkt nd = PKT_SIGNATURE x"
  by (auto simp: sig_at_def split: option.split_asm packet.split_asm)

lemma dedup_frame_refl [simp]: "dedup_frame s s"
  by (simp add: dedup_frame_def)

lemma dedup_frame_trans: "dedup_frame s s1 \<Longrightarrow> dedup_frame s1 s2 \<Longrightarrow> dedup_frame s s2"
  by (simp add: dedup_frame_def heap_frame_def)

lemma filter_remove_mid:
  "distinct (pre @ a # post) \<Longrightarrow> filter (\<lambda>b. b \<noteq> a) (pre @ a # post) = pre @ post"
proof -
  assume d: "distinct (pre @ a # post)"
  then have "filter (\<lambda>b. b \<noteq> a) pre = pre" "filter (\<lambda>b. b \<noteq> a) post = post"
    by (auto simp: filter_id_conv)
  then show ?thesis by simp
qed

lemma dedup_scan:
  assumes "islist (mem s) (kb s) cur" and "set (y # rest) \<subseteq> set cur" and "distinct (y # rest)"
    and "\<forall>b \<in> set (y # rest). sig_at (mem s) b \<noteq> None"
    and "length dn = last_i" and "nsigs = last_i + 1 + length rest"
  shows "\<exists>s'. loop (dedup_step E nsigs) (dn @ map Some (y # rest), last_i, last_i + 1, s)
               = Some (Inr s')
           \<and> islist (mem s') (kb s')
                (filter (\<lambda>b. b \<notin> set (kills (dup_of E (mem s)) (y # rest))) cur)
           \<and> (\<forall>b \<in> set (kills (dup_of E (mem s)) (y # rest)). mem s' b = None)
           \<and> (\<forall>b. b \<notin> set (kills (dup_of E (mem s)) (y # rest))
                  \<longrightarrow> content (mem s') b = content (mem s) b)
           \<and> dups s' = dups s + length (kills (dup_of E (mem s)) (y # rest))
           \<and> dedup_frame s s'
           \<and> (kills (dup_of E (mem s)) (y # rest) = [] \<longrightarrow> s' = s)"
  using assms
proof (induction rest arbitrary: s y dn last_i cur)
  case Nil
  then have "dedup_step E nsigs (dn @ map Some [y], last_i, last_i + 1, s) = Some (Done (Inr s))"
    by (simp add: dedup_step_def)
  then show ?case using Nil.prems(1) by (simp add: loop_Done)
next
  case (Cons z rest)
  let ?sigs = "dn @ map Some (y # z # rest)"
  from Cons.prems obtain sa sb where sa: "sig_at (mem s) y = Some sa" and sb: "sig_at (mem s) z = Some sb"
    by auto
  from sa sb obtain na nb where na: "mem s y = Some na" "pkt na = PKT_SIGNATURE sa"
    and nb: "mem s z = Some nb" "pkt nb = PKT_SIGNATURE sb"
    by (auto dest!: sig_at_SomeD)
  have i: "last_i + 1 < nsigs" using Cons.prems by simp
  have n1: "?sigs ! last_i = Some y" using Cons.prems(5) by (simp add: nth_append)
  have n2: "?sigs ! (last_i + 1) = Some z" using Cons.prems(5) by (simp add: nth_append)
  have d: "dup_of E (mem s) y z = (sig_comparison E sa sb = 0)" using sa sb by (simp add: dup_of_def)
  show ?case
  proof (cases "sig_comparison E sa sb = 0")
    case False
    have st: "dedup_step E nsigs (?sigs, last_i, last_i + 1, s)
              = Some (Next ((dn @ [Some y]) @ map Some (z # rest), last_i + 1, last_i + 1 + 1, s))"
      using i n1 n2 na nb False by (simp add: dedup_step_def)
    have "\<exists>s'. loop (dedup_step E nsigs) ((dn @ [Some y]) @ map Some (z # rest), last_i + 1, last_i + 1 + 1, s)
               = Some (Inr s')
           \<and> islist (mem s') (kb s')
                (filter (\<lambda>b. b \<notin> set (kills (dup_of E (mem s)) (z # rest))) cur)
           \<and> (\<forall>b \<in> set (kills (dup_of E (mem s)) (z # rest)). mem s' b = None)
           \<and> (\<forall>b. b \<notin> set (kills (dup_of E (mem s)) (z # rest))
                  \<longrightarrow> content (mem s') b = content (mem s) b)
           \<and> dups s' = dups s + length (kills (dup_of E (mem s)) (z # rest))
           \<and> dedup_frame s s'
           \<and> (kills (dup_of E (mem s)) (z # rest) = [] \<longrightarrow> s' = s)"
      by (rule Cons.IH) (use Cons.prems in auto)
    then show ?thesis using st False d by (simp add: loop_Next)
  next
    case True
    from Cons.prems(2) have "y \<in> set cur" by simp
    then obtain pre post where cur: "cur = pre @ y # post" by (auto simp: in_set_conv_decomp)
    from remove_node_list [OF Cons.prems(1) [unfolded cur]] obtain s1 where
      s1: "remove_node y s = Some (Inr s1)" "islist (mem s1) (kb s1) (pre @ post)"
      "mem s1 y = None" "\<And>b. b \<noteq> y \<Longrightarrow> content (mem s1) b = content (mem s) b"
      "heap_frame (s\<lparr>dups := dups s + 1, modified := 1\<rparr>) s1"
      "dups s1 = dups s + 1" "modified s1 = 1"
      by metis
    have dc: "distinct cur" using Cons.prems(1) by (rule islist_distinct)
    have cur': "pre @ post = filter (\<lambda>b. b \<noteq> y) cur"
      using dc cur by (simp add: filter_remove_mid del: filter_append)
    have upd: "?sigs[last_i := None] = (dn @ [None]) @ map Some (z # rest)"
      using Cons.prems(5) by (simp add: list_update_append)
    have st: "dedup_step E nsigs (?sigs, last_i, last_i + 1, s)
              = Some (Next ((dn @ [None]) @ map Some (z # rest), last_i + 1, last_i + 1 + 1, s1))"
      using i n1 n2 na nb True s1(1) upd by (simp add: dedup_step_def)
    have sg: "sig_at (mem s1) b = sig_at (mem s) b" if "b \<noteq> y" for b
      using s1(4) [OF that] by (rule sig_at_content)
    have kc: "kills (dup_of E (mem s1)) (z # rest) = kills (dup_of E (mem s)) (z # rest)"
    proof (rule kills_cong)
      fix a b
      assume "a \<in> set (z # rest)" "b \<in> set (z # rest)"
      then have "a \<noteq> y" "b \<noteq> y" using Cons.prems(3) by auto
      then have "sig_at (mem s1) a = sig_at (mem s) a" "sig_at (mem s1) b = sig_at (mem s) b"
        by (simp_all add: sg)
      then show "dup_of E (mem s1) a b = dup_of E (mem s) a b"
        by (simp add: dup_of_def split: option.splits)
    qed
    have ih: "\<exists>s'. loop (dedup_step E nsigs) ((dn @ [None]) @ map Some (z # rest), last_i + 1, last_i + 1 + 1, s1)
               = Some (Inr s')
           \<and> islist (mem s') (kb s')
                (filter (\<lambda>b. b \<notin> set (kills (dup_of E (mem s1)) (z # rest))) (pre @ post))
           \<and> (\<forall>b \<in> set (kills (dup_of E (mem s1)) (z # rest)). mem s' b = None)
           \<and> (\<forall>b. b \<notin> set (kills (dup_of E (mem s1)) (z # rest))
                  \<longrightarrow> content (mem s') b = content (mem s1) b)
           \<and> dups s' = dups s1 + length (kills (dup_of E (mem s1)) (z # rest))
           \<and> dedup_frame s1 s'
           \<and> (kills (dup_of E (mem s1)) (z # rest) = [] \<longrightarrow> s' = s1)"
    proof (rule Cons.IH)
      show "islist (mem s1) (kb s1) (pre @ post)" by (rule s1(2))
      show "set (z # rest) \<subseteq> set (pre @ post)"
        using Cons.prems(2,3) cur' by auto
      show "distinct (z # rest)" using Cons.prems(3) by simp
      show "\<forall>b\<in>set (z # rest). sig_at (mem s1) b \<noteq> None"
      proof
        fix b assume b: "b \<in> set (z # rest)"
        then have "b \<noteq> y" using Cons.prems(3) by auto
        then show "sig_at (mem s1) b \<noteq> None" using sg [of b] Cons.prems(4) b by auto
      qed
      show "length (dn @ [None]) = last_i + 1" using Cons.prems(5) by simp
      show "nsigs = last_i + 1 + 1 + length rest" using Cons.prems(6) by simp
    qed
    then obtain s' where s': "loop (dedup_step E nsigs) ((dn @ [None]) @ map Some (z # rest), last_i + 1, last_i + 1 + 1, s1)
               = Some (Inr s')"
      "islist (mem s') (kb s')
                (filter (\<lambda>b. b \<notin> set (kills (dup_of E (mem s)) (z # rest))) (pre @ post))"
      "\<forall>b \<in> set (kills (dup_of E (mem s)) (z # rest)). mem s' b = None"
      "\<forall>b. b \<notin> set (kills (dup_of E (mem s)) (z # rest))
                  \<longrightarrow> content (mem s') b = content (mem s1) b"
      "dups s' = dups s1 + length (kills (dup_of E (mem s)) (z # rest))"
      "dedup_frame s1 s'"
      unfolding kc by blast
    have K: "kills (dup_of E (mem s)) (y # z # rest) = y # kills (dup_of E (mem s)) (z # rest)"
      using True d by simp
    have ynk: "y \<notin> set (kills (dup_of E (mem s)) (z # rest))"
      using kills_subset_all [of "dup_of E (mem s)" "z # rest"] Cons.prems(3) by auto
    have 1: "loop (dedup_step E nsigs) (?sigs, last_i, last_i + 1, s) = Some (Inr s')"
      using st s'(1) by (simp add: loop_Next)
    have 2: "islist (mem s') (kb s')
                (filter (\<lambda>b. b \<notin> set (kills (dup_of E (mem s)) (y # z # rest))) cur)"
      using s'(2) unfolding K cur' by (simp add: conj_commute)
    have 3: "\<forall>b \<in> set (kills (dup_of E (mem s)) (y # z # rest)). mem s' b = None"
    proof -
      have "content (mem s') y = content (mem s1) y" using s'(4) ynk by blast
      then have "mem s' y = None" using s1(3) by (simp add: content_def)
      then show ?thesis using s'(3) K by simp
    qed
    have 4: "\<forall>b. b \<notin> set (kills (dup_of E (mem s)) (y # z # rest))
                  \<longrightarrow> content (mem s') b = content (mem s) b"
      using s'(4) s1(4) K by auto
    have 5: "dups s' = dups s + length (kills (dup_of E (mem s)) (y # z # rest))"
      using s'(5) s1(6) K by simp
    have 6: "dedup_frame s s'"
      using s'(6) s1(5) by (simp add: dedup_frame_def heap_frame_def)
    show ?thesis using 1 2 3 4 5 6 K by auto
  qed
qed

section \<open>The invariant of the second pass\<close>

lemma tally_append:
  "tally v V C cc (xs @ ys) = tally v V C cc xs + tally v V C (foldl C cc xs) ys"
  by (induction xs arbitrary: cc) auto

lemma insert_after_decomp:
  "t \<notin> set l1 \<Longrightarrow> insert_after t a (l1 @ t # l2) = l1 @ t # a # l2"
  by (induction l1) auto

lemma tally_insert_after:
  assumes "\<And>cc. C cc a = cc" and "\<And>cc. V (C cc t) a \<noteq> v"
  shows "tally v V C cc (insert_after t a ys) = tally v V C cc ys"
  using assms by (induction ys arbitrary: cc) auto

lemma foldl_insert_after:
  assumes "\<And>cc. C cc a = cc"
  shows "foldl C cc (insert_after t a ys) = foldl C cc ys"
  using assms by (induction ys arbitrary: cc) auto

lemma set_insert_after: "t \<in> set ys \<Longrightarrow> set (insert_after t a ys) = insert a (set ys)"
  by (induction ys) auto

lemma length_insert_after: "t \<in> set ys \<Longrightarrow> length (insert_after t a ys) = Suc (length ys)"
  by (induction ys) auto

lemma content_apply: "content h' = content h \<Longrightarrow> content h' b = content h b"
  by simp

lemma content_NoneD: "content h' = content h \<Longrightarrow> (h' b = None) = (h b = None)"
  by (drule content_apply [of _ _ b]) (cases "h b"; cases "h' b"; simp add: content_def)

lemma content_SomeD:
  "content h' = content h \<Longrightarrow> h' b = Some nd' \<Longrightarrow>
   \<exists>nd. h b = Some nd \<and> pkt nd = pkt nd' \<and> deleted nd = deleted nd'
        \<and> sel_key nd = sel_key nd' \<and> sel_uid nd = sel_uid nd'"
  by (drule content_apply [of _ _ b]) (cases "h b"; simp add: content_def)

lemma verifies_content:
  assumes "content h' = content h"
  shows "verifies E h' = verifies E h"
proof (intro ext)
  fix iss sig pk t
  show "verifies E h' iss sig pk t = verifies E h iss sig pk t"
  proof (cases "h' t")
    case None
    then show ?thesis using content_NoneD [OF assms, of t] by (simp add: verifies_def)
  next
    case (Some nd')
    with content_SomeD [OF assms Some] show ?thesis by (auto simp: verifies_def)
  qed
qed

lemma ctx_step_content:
  assumes "content h' = content h"
  shows "ctx_step os h' = ctx_step os h"
proof (intro ext)
  fix cc a
  show "ctx_step os h' cc a = ctx_step os h cc a"
  proof (cases "h' a")
    case None
    then show ?thesis using content_NoneD [OF assms, of a] by (simp add: ctx_step_def)
  next
    case (Some nd')
    with content_SomeD [OF assms Some] show ?thesis by (auto simp: ctx_step_def)
  qed
qed

lemma ctx_step_sig: "h a = Some nd \<Longrightarrow> is_signature (pkt nd) \<Longrightarrow> ctx_step os h cc a = cc"
  by (cases "pkt nd") (auto simp: ctx_step_def is_signature_def)

lemma upd_next_Some:
  "h a = Some nd \<Longrightarrow> upd_next a v h a = Some (nd\<lparr>nextp := v\<rparr>)"
  by (simp add: upd_next_apply)

lemma upd_next_other: "b \<noteq> a \<Longrightarrow> upd_next a v h b = h b"
  by (simp add: upd_next_apply)

lemma islist_nextp_head:
  "islist h p xs \<Longrightarrow> p = (if xs = [] then None else Some (hd xs))"
  by (cases xs) auto

lemma relocate_back:
  assumes p: "path (mem s) (kb s) (l1 @ t # l2) (Some a)" and na: "mem s a = Some na"
    and post: "islist (mem s) (nextp na) post" and pp: "n_prevp s = ploc (l1 @ t # l2)"
    and d: "distinct (l1 @ t # l2 @ a # post)"
  obtains s' na' where "relocate a t s = Inr s'"
    and "path (mem s') (kb s') (l1 @ t # a # l2) (nextp na)"
    and "islist (mem s') (nextp na) post"
    and "content (mem s') = content (mem s)"
    and "heap_frame (s\<lparr>reordered := reordered s + 1, modified := 1\<rparr>) s'"
    and "mem s' a = Some na'" and "(nextp na' = nextp na) = (l2 = [])"
proof -
  let ?pre = "l1 @ t # l2"
  from d have dp: "distinct ?pre" by auto
  from store_ploc [OF p dp, of "nextp na"] obtain s1 where
    s1: "store_ptr (ploc ?pre) (nextp na) s = Inr s1"
    "path (mem s1) (kb s1) ?pre (nextp na)" "content (mem s1) = content (mem s)"
    "\<And>b. b \<notin> set ?pre \<Longrightarrow> mem s1 b = mem s b"
    "heap_frame s s1"
    by metis
  from s1(2) obtain nt where nt: "path (mem s1) (kb s1) l1 (Some t)" "mem s1 t = Some nt"
    "path (mem s1) (nextp nt) l2 (nextp na)"
    by (auto simp: path_append)
  have a1: "mem s1 a = Some na" using s1(4) [of a] d na by simp
  let ?h2 = "upd_next a (nextp nt) (mem s1)"
  let ?h3 = "upd_next t (Some a) ?h2"
  let ?s' = "s1\<lparr>mem := ?h3, reordered := reordered s1 + 1, modified := 1\<rparr>"
  have ta: "t \<noteq> a" using d by auto
  have t2: "?h2 t = Some nt" using nt(2) ta by (simp add: upd_next_other)
  have r: "relocate a t s = Inr ?s'"
    using na s1(1) nt(2) a1 t2 pp
    by (simp add: relocate_def store_ptr_Next_of)
  have 1: "path ?h3 (kb s1) l1 (Some t)" using nt(1) d by simp
  have 2: "?h3 t = Some (nt\<lparr>nextp := Some a\<rparr>)" using t2 by (simp add: upd_next_Some)
  have 3: "?h3 a = Some (na\<lparr>nextp := nextp nt\<rparr>)"
    using a1 ta by (simp add: upd_next_other upd_next_Some)
  have 4: "path ?h3 (nextp nt) l2 (nextp na)" using nt(3) d by simp
  have P: "path (mem ?s') (kb ?s') (l1 @ t # a # l2) (nextp na)"
    using 1 2 3 4 by (simp add: path_append)
  have np: "b \<notin> set ?pre" if "b \<in> set post" for b using d that by auto
  have "islist (mem s1) (nextp na) post"
    using post s1(4) np by (subst islist_frame [of post _ "mem s"]) auto
  then have Q: "islist (mem ?s') (nextp na) post" using d by simp
  have C: "content (mem ?s') = content (mem s)" using s1(3) by simp
  have F: "heap_frame (s\<lparr>reordered := reordered s + 1, modified := 1\<rparr>) ?s'"
    using s1(5) by (simp add: heap_frame_def)
  have N: "(nextp (na\<lparr>nextp := nextp nt\<rparr>) = nextp na) = (l2 = [])"
  proof (cases l2)
    case Nil
    then show ?thesis using nt(3) by simp
  next
    case (Cons b bs)
    then have "nextp nt = Some b" using nt(3) by simp
    moreover have "nextp na \<noteq> Some b"
      using islist_nextp_head [OF post] d Cons by (auto split: if_split_asm)
    ultimately show ?thesis using Cons by simp
  qed
  show thesis using that [OF r P Q C F] 3 N by simp
qed

lemma relocate_fwd:
  assumes p: "path (mem s) (kb s) pre (Some a)" and na: "mem s a = Some na"
    and post: "islist (mem s) (nextp na) (p1 @ t # p2)" and pp: "n_prevp s = ploc pre"
    and d: "distinct (pre @ a # p1 @ t # p2)"
  obtains s' na' where "relocate a t s = Inr s'"
    and "path (mem s') (kb s') pre (nextp na)"
    and "islist (mem s') (nextp na) (p1 @ t # a # p2)"
    and "content (mem s') = content (mem s)"
    and "heap_frame (s\<lparr>reordered := reordered s + 1, modified := 1\<rparr>) s'"
    and "mem s' a = Some na'" and "nextp na' \<noteq> nextp na"
proof -
  from d have dp: "distinct pre" by auto
  from store_ploc [OF p dp, of "nextp na"] obtain s1 where
    s1: "store_ptr (ploc pre) (nextp na) s = Inr s1"
    "path (mem s1) (kb s1) pre (nextp na)" "content (mem s1) = content (mem s)"
    "\<And>b. b \<notin> set pre \<Longrightarrow> mem s1 b = mem s b"
    "heap_frame s s1"
    by metis
  have np: "b \<notin> set pre" if "b \<in> set (p1 @ t # p2)" for b using d that by auto
  have "islist (mem s1) (nextp na) (p1 @ t # p2)"
    using post s1(4) np by (subst islist_frame [of "p1 @ t # p2" _ "mem s"]) auto
  then obtain nt where nt: "path (mem s1) (nextp na) p1 (Some t)" "mem s1 t = Some nt"
    "islist (mem s1) (nextp nt) p2"
    by (auto simp: islist_append)
  have a1: "mem s1 a = Some na" using s1(4) [of a] d na by simp
  let ?h2 = "upd_next a (nextp nt) (mem s1)"
  let ?h3 = "upd_next t (Some a) ?h2"
  let ?s' = "s1\<lparr>mem := ?h3, reordered := reordered s1 + 1, modified := 1\<rparr>"
  have ta: "t \<noteq> a" using d by auto
  have t2: "?h2 t = Some nt" using nt(2) ta by (simp add: upd_next_other)
  have r: "relocate a t s = Inr ?s'"
    using na s1(1) nt(2) a1 t2 pp
    by (simp add: relocate_def store_ptr_Next_of)
  have P: "path (mem ?s') (kb ?s') pre (nextp na)" using s1(2) d by simp
  have 1: "path ?h3 (nextp na) p1 (Some t)" using nt(1) d by simp
  have 2: "?h3 t = Some (nt\<lparr>nextp := Some a\<rparr>)" using t2 by (simp add: upd_next_Some)
  have 3: "?h3 a = Some (na\<lparr>nextp := nextp nt\<rparr>)"
    using a1 ta by (simp add: upd_next_other upd_next_Some)
  have 4: "islist ?h3 (nextp nt) p2" using nt(3) d by simp
  have Q: "islist (mem ?s') (nextp na) (p1 @ t # a # p2)"
    using 1 2 3 4 by (simp add: islist_append)
  have C: "content (mem ?s') = content (mem s)" using s1(3) by simp
  have F: "heap_frame (s\<lparr>reordered := reordered s + 1, modified := 1\<rparr>) ?s'"
    using s1(5) by (simp add: heap_frame_def)
  have "nextp na = Some (hd (p1 @ [t]))"
    using islist_nextp_head [OF post] by (cases p1) auto
  moreover have "nextp nt \<noteq> Some (hd (p1 @ [t]))"
    using islist_nextp_head [OF nt(3)] d by (cases p1) (auto split: if_split_asm)
  ultimately have N: "nextp (na\<lparr>nextp := nextp nt\<rparr>) \<noteq> nextp na" by simp
  show thesis using that [OF r P Q C F] 3 N by simp
qed

lemma ctx_step_cases:
  "ctx_step os h cc a = cc \<or> ctx_step os h cc a = None
   \<or> (ctx_step os h cc a = Some a \<and> (\<exists>nd. h a = Some nd \<and> \<not> deleted nd \<and> is_component (pkt nd)))"
  by (cases "h a") (auto simp: ctx_step_def is_component_def split: packet.splits)

lemma ctx_Some:
  "foldl (ctx_step os h) None pre = Some c \<Longrightarrow>
   c \<in> set pre \<and> (\<exists>nd. h c = Some nd \<and> \<not> deleted nd \<and> is_component (pkt nd))"
proof (induction pre rule: rev_induct)
  case Nil
  then show ?case by simp
next
  case (snoc a pre)
  then show ?case
    using ctx_step_cases [of os h "foldl (ctx_step os h) None pre" a] by auto
qed

lemma ploc_snoc [simp]: "ploc (pre @ [a]) = Next_of a"
  by (simp add: ploc_def)

lemma pinv_advance:
  assumes inv: "pinv E pk os oss h0 k0 L0 s0 pre (a # rest) s" and nd: "mem s a = Some nd"
    and same: "mem s1 = mem s" "kb s1 = kb s" "n_prevp s1 = n_prevp s" "reordered s1 = reordered s"
      "dups s1 = dups s" "modified s1 = modified s" "has_selfsig s1 = has_selfsig s"
      "missing_selfsig s1 = missing_selfsig s"
    and cc: "current_component s1 = ctx_step os h0 (current_component s) a"
    and mi: "missing_issuer s1 = missing_issuer s
        + (if verdict_of E pk oss h0 L0 (current_component s) a = Missing_issuer then 1 else 0)"
    and bs: "bad_signature s1 = bad_signature s
        + (if verdict_of E pk oss h0 L0 (current_component s) a = Bad then 1 else 0)"
    and nm: "verdict_of E pk oss h0 L0 (current_component s) a \<noteq> Misplaced"
    and ko: "key_ok pk h0 a"
  shows "\<exists>s'. advance a (nextp nd) s1 = Some (Next s')
           \<and> pinv E pk os oss h0 k0 L0 s0 (pre @ [a]) rest s'
           \<and> pmeasure E pk os oss h0 L0 rest s' < pmeasure E pk os oss h0 L0 (a # rest) s"
proof -
  let ?s' = "s1\<lparr>n_prevp := Next_of a, n_node := nextp nd\<rparr>"
  from inv have n: "n_node s = Some a" and r: "islist (mem s) (nextp nd) rest"
    and p: "path (mem s) (kb s) pre (Some a)"
    using nd by (auto simp: pinv_def)
  have adv: "advance a (nextp nd) s1 = Some (Next ?s')"
    using nd same(1) by (simp add: advance_def)
  have P: "path (mem ?s') (kb ?s') (pre @ [a]) (n_node ?s')"
    using p nd same by (simp add: path_snoc)
  have I: "pinv E pk os oss h0 k0 L0 s0 (pre @ [a]) rest ?s'"
    using inv P r same cc mi bs nm ko
    unfolding pinv_def by (clarsimp simp: tally_append)
  have M: "pmeasure E pk os oss h0 L0 rest ?s' < pmeasure E pk os oss h0 L0 (a # rest) s"
    using cc by (simp add: pmeasure_def)
  show ?thesis using adv I M by blast
qed

lemma pinv_relocate:
  assumes inv: "pinv E pk os oss h0 k0 L0 s0 pre (a # rest) s" and nd: "mem s a = Some nd"
    and sg: "\<And>cc. ctx_step os h0 cc a = cc"
    and same: "mem s1 = mem s" "kb s1 = kb s" "n_prevp s1 = n_prevp s" "reordered s1 = reordered s"
      "dups s1 = dups s" "has_selfsig s1 = has_selfsig s" "missing_selfsig s1 = missing_selfsig s"
      "current_component s1 = current_component s" "missing_issuer s1 = missing_issuer s"
      "bad_signature s1 = bad_signature s"
    and v: "verdict_of E pk oss h0 L0 (current_component s) a = Misplaced"
    and t: "t \<in> set (pre @ rest)"
    and vt: "\<And>cc. verdict_of E pk oss h0 L0 (ctx_step os h0 cc t) a \<notin> {Misplaced, Bad, Missing_issuer}"
    and ko: "key_ok pk h0 a"
  shows "\<exists>s2 s' pre' rest'. relocate a t s1 = Inr s2 \<and> advance a (nextp nd) s2 = Some (Next s')
           \<and> pinv E pk os oss h0 k0 L0 s0 pre' rest' s'
           \<and> pmeasure E pk os oss h0 L0 rest' s' < pmeasure E pk os oss h0 L0 (a # rest) s"
proof -
  let ?V = "verdict_of E pk oss h0 L0" and ?C = "ctx_step os h0"
  from inv have n: "n_node s = Some a" and r: "islist (mem s) (nextp nd) rest"
    and p: "path (mem s) (kb s) pre (Some a)" and d: "distinct (pre @ a # rest)"
    and st: "set (pre @ a # rest) = set L0" and c0: "content (mem s) = content h0"
    and pl: "n_prevp s = ploc pre" and cc: "current_component s = foldl ?C None pre"
    and tm: "missing_issuer s = missing_issuer s0 + tally Missing_issuer ?V ?C None pre"
    and tb: "bad_signature s = bad_signature s0 + tally Bad ?V ?C None pre"
    and tp: "tally Misplaced ?V ?C None pre = 0"
    and tr: "reordered s + tally Misplaced ?V ?C (current_component s) (a # rest)
             = reordered s0 + tally Misplaced ?V ?C None L0"
    and ro: "reordered s0 \<le> reordered s" and du: "dups s = dups s0"
    and hs: "has_selfsig s = has_selfsig s0" "missing_selfsig s = missing_selfsig s0"
    and kp: "list_all (key_ok pk h0) pre"
    using nd by (auto simp: pinv_def)
  have vt': "?V (?C c t) a \<noteq> Misplaced" "?V (?C c t) a \<noteq> Bad" "?V (?C c t) a \<noteq> Missing_issuer"
    for c using vt [of c] by auto
  have tr': "reordered s + 1 + tally Misplaced ?V ?C (current_component s) rest
             = reordered s0 + tally Misplaced ?V ?C None L0"
    using tr v sg by simp
  from t show ?thesis
  proof (simp only: set_append Un_iff, elim disjE)
    assume "t \<in> set pre"
    then obtain l1 l2 where pre: "pre = l1 @ t # l2" "t \<notin> set l1"
      by (auto dest: split_list_first)
    from relocate_back [of s1 l1 t l2 a nd rest] obtain s2 na' where
      s2: "relocate a t s1 = Inr s2"
      "path (mem s2) (kb s2) (l1 @ t # a # l2) (nextp nd)"
      "islist (mem s2) (nextp nd) rest"
      "content (mem s2) = content (mem s1)"
      "heap_frame (s1\<lparr>reordered := reordered s1 + 1, modified := 1\<rparr>) s2"
      "mem s2 a = Some na'" "(nextp na' = nextp nd) = (l2 = [])"
      using p nd r pl d same pre by auto
    let ?s' = "s2\<lparr>n_prevp := (if nextp na' = nextp nd then Next_of a else n_prevp s2),
                   n_node := nextp nd\<rparr>"
    let ?pre' = "l1 @ t # a # l2"
    have adv: "advance a (nextp nd) s2 = Some (Next ?s')" using s2(6) by (simp add: advance_def)
    note f = heap_frame_fields [OF s2(5)]
    have ia: "?pre' = insert_after t a pre" using pre by (simp add: insert_after_decomp)
    have pp: "n_prevp ?s' = ploc ?pre'"
      using s2(7) f(2) same(3) pl pre by (auto simp: ploc_def)
    have I: "pinv E pk os oss h0 k0 L0 s0 ?pre' rest ?s'"
      unfolding pinv_def
    proof (intro conjI)
      show "path (mem ?s') (kb ?s') ?pre' (n_node ?s')" using s2(2) by simp
      show "islist (mem ?s') (n_node ?s') rest" using s2(3) by simp
      show "distinct (?pre' @ rest)" using d pre by auto
      show "set (?pre' @ rest) = set L0" using st pre by auto
      show "content (mem ?s') = content h0" using s2(4) same(1) c0 by simp
      show "n_prevp ?s' = ploc ?pre'" by (rule pp)
      show "current_component ?s' = foldl ?C None ?pre'"
        using f(4) same(8) cc unfolding ia by (simp add: foldl_insert_after sg)
      show "missing_issuer ?s' = missing_issuer s0 + tally Missing_issuer ?V ?C None ?pre'"
        using f(7) same(9) tm unfolding ia by (simp add: tally_insert_after sg vt')
      show "bad_signature ?s' = bad_signature s0 + tally Bad ?V ?C None ?pre'"
        using f(9) same(10) tb unfolding ia by (simp add: tally_insert_after sg vt')
      show "tally Misplaced ?V ?C None ?pre' = 0"
        using tp unfolding ia by (simp add: tally_insert_after sg vt')
      show "reordered ?s' + tally Misplaced ?V ?C (current_component ?s') rest
            = reordered s0 + tally Misplaced ?V ?C None L0"
        using f(8) f(4) same(4,8) tr' by simp
      show "reordered ?s' = reordered s0 \<longrightarrow> mem ?s' = h0 \<and> kb ?s' = k0"
        using f(8) same(4) ro by simp
      show "reordered s0 \<le> reordered ?s'" using f(8) same(4) ro by simp
      show "dups ?s' = dups s0" using f(6) same(5) du by simp
      show "modified ?s' = (if reordered ?s' = reordered s0 then modified s0 else 1)"
        using f(8,11) same(4) ro by simp
      show "has_selfsig ?s' = has_selfsig s0" using f(5) same(6) hs by simp
      show "missing_selfsig ?s' = missing_selfsig s0" using f(10) same(7) hs by simp
      show "list_all (key_ok pk h0) ?pre'" using kp ko pre by simp
    qed
    have M: "pmeasure E pk os oss h0 L0 rest ?s' < pmeasure E pk os oss h0 L0 (a # rest) s"
      using f(4) same(8) sg by (simp add: pmeasure_def)
    show ?thesis using s2(1) adv I M by blast
  next
    assume "t \<in> set rest"
    then obtain p1 p2 where rest: "rest = p1 @ t # p2" "t \<notin> set p1"
      by (auto dest: split_list_first)
    from relocate_fwd [of s1 pre a nd p1 t p2] obtain s2 na' where
      s2: "relocate a t s1 = Inr s2"
      "path (mem s2) (kb s2) pre (nextp nd)"
      "islist (mem s2) (nextp nd) (p1 @ t # a # p2)"
      "content (mem s2) = content (mem s1)"
      "heap_frame (s1\<lparr>reordered := reordered s1 + 1, modified := 1\<rparr>) s2"
      "mem s2 a = Some na'" "nextp na' \<noteq> nextp nd"
      using p nd r pl d same rest by auto
    let ?s' = "s2\<lparr>n_prevp := (if nextp na' = nextp nd then Next_of a else n_prevp s2),
                   n_node := nextp nd\<rparr>"
    let ?rest' = "p1 @ t # a # p2"
    have adv: "advance a (nextp nd) s2 = Some (Next ?s')" using s2(6) by (simp add: advance_def)
    note f = heap_frame_fields [OF s2(5)]
    have ia: "?rest' = insert_after t a rest" using rest by (simp add: insert_after_decomp)
    have tl: "tally Misplaced ?V ?C c ?rest' = tally Misplaced ?V ?C c rest" for c
      unfolding ia by (simp add: tally_insert_after sg vt')
    have I: "pinv E pk os oss h0 k0 L0 s0 pre ?rest' ?s'"
      unfolding pinv_def
    proof (intro conjI)
      show "path (mem ?s') (kb ?s') pre (n_node ?s')" using s2(2) by simp
      show "islist (mem ?s') (n_node ?s') ?rest'" using s2(3) by simp
      show "distinct (pre @ ?rest')" using d rest by auto
      show "set (pre @ ?rest') = set L0" using st rest by auto
      show "content (mem ?s') = content h0" using s2(4) same(1) c0 by simp
      show "n_prevp ?s' = ploc pre" using s2(7) f(2) same(3) pl by simp
      show "current_component ?s' = foldl ?C None pre" using f(4) same(8) cc by simp
      show "missing_issuer ?s' = missing_issuer s0 + tally Missing_issuer ?V ?C None pre"
        using f(7) same(9) tm by simp
      show "bad_signature ?s' = bad_signature s0 + tally Bad ?V ?C None pre"
        using f(9) same(10) tb by simp
      show "tally Misplaced ?V ?C None pre = 0" by (rule tp)
      show "reordered ?s' + tally Misplaced ?V ?C (current_component ?s') ?rest'
            = reordered s0 + tally Misplaced ?V ?C None L0"
        using f(8) f(4) same(4,8) tr' by (simp add: tl)
      show "reordered ?s' = reordered s0 \<longrightarrow> mem ?s' = h0 \<and> kb ?s' = k0"
        using f(8) same(4) ro by simp
      show "reordered s0 \<le> reordered ?s'" using f(8) same(4) ro by simp
      show "dups ?s' = dups s0" using f(6) same(5) du by simp
      show "modified ?s' = (if reordered ?s' = reordered s0 then modified s0 else 1)"
        using f(8,11) same(4) ro by simp
      show "has_selfsig ?s' = has_selfsig s0" using f(5) same(6) hs by simp
      show "missing_selfsig ?s' = missing_selfsig s0" using f(10) same(7) hs by simp
      show "list_all (key_ok pk h0) pre" by (rule kp)
    qed
    have M: "pmeasure E pk os oss h0 L0 ?rest' ?s' < pmeasure E pk os oss h0 L0 (a # rest) s"
      using f(4) same(8) sg v rest by (simp add: pmeasure_def tl)
    show ?thesis using s2(1) adv I M by blast
  qed
qed

lemma verdict_of_None: "verdict_of E pk oss h L None a = Skipped"
  by (auto simp: verdict_of_def split: option.splits packet.splits)

lemma ctx_step_component:
  "h t = Some nt \<Longrightarrow> \<not> deleted nt \<Longrightarrow> is_component (pkt nt) \<Longrightarrow>
   ctx_step os h cc t = None \<or> ctx_step os h cc t = Some t"
  by (cases "pkt nt") (auto simp: ctx_step_def is_component_def)

lemma place_signature_pinv:
  assumes inv: "pinv E pk os oss h0 k0 L0 s0 pre (a # rest) s" and nd: "mem s a = Some nd"
    and sg: "pkt nd = PKT_SIGNATURE sig" and live: "\<not> deleted nd"
    and c: "current_component s = Some c"
    and same: "mem s1 = mem s" "kb s1 = kb s" "n_prevp s1 = n_prevp s" "reordered s1 = reordered s"
      "dups s1 = dups s" "modified s1 = modified s" "has_selfsig s1 = has_selfsig s"
      "missing_selfsig s1 = missing_selfsig s"
      "current_component s1 = current_component s" "missing_issuer s1 = missing_issuer s"
      "bad_signature s1 = bad_signature s"
    and V: "\<And>c'. verdict_of E pk oss h0 L0 (Some c') a = judge E pk h0 L0 c' sig iss"
  shows "(\<exists>s' pre' rest'. place_signature E pk a (nextp nd) sig iss s1 = Some (Next s')
            \<and> pinv E pk os oss h0 k0 L0 s0 pre' rest' s'
            \<and> pmeasure E pk os oss h0 L0 rest' s' < pmeasure E pk os oss h0 L0 (a # rest) s)
         \<or> (place_signature E pk a (nextp nd) sig iss s1 = Some (Done (Inl Assert_failed))
             \<and> verdict_of E pk oss h0 L0 (current_component s) a = Misplaced)"
proof -
  let ?V = "verdict_of E pk oss h0 L0" and ?C = "ctx_step os h0"
  let ?L = "pre @ a # rest"
  from inv nd have n: "n_node s = Some a" and r: "islist (mem s) (nextp nd) rest"
    and p: "path (mem s) (kb s) pre (Some a)" and st: "set ?L = set L0"
    and c0: "content (mem s) = content h0" and cc: "current_component s = foldl ?C None pre"
    by (auto simp: pinv_def)
  have L: "islist (mem s) (kb s) ?L" using p nd r by (auto simp: islist_append)
  from content_SomeD [OF c0 nd] obtain nd0 where nd0: "h0 a = Some nd0" "pkt nd0 = pkt nd"
    "deleted nd0 = deleted nd" by auto
  have csig: "?C c' a = c'" for c' using nd0 sg by (simp add: ctx_step_sig is_signature_def)
  have kok: "key_ok pk h0 a" using nd0 sg by (simp add: key_ok_def)
  from ctx_Some [of os h0 pre c] c cc obtain nc0 where nc0: "c \<in> set pre" "h0 c = Some nc0"
    by auto
  then obtain nc where nc: "mem s c = Some nc"
    using content_NoneD [OF c0, of c] by (cases "mem s c") auto
  have ver: "verifies E (mem s) = verifies E h0" using c0 by (rule verifies_content)
  note adv = pinv_advance [OF inv nd]
  show ?thesis
  proof (cases "openpgp_pk_test_algo E (pubkey_algo sig) \<noteq> 0")
    case True
    then have v: "?V (current_component s) a = Unsupported" using V c by (simp add: judge_def)
    have "place_signature E pk a (nextp nd) sig iss s1
          = advance a (nextp nd) (s1\<lparr>tty := tty s1 @ [Tty_unsupported_pubkey_algo (pubkey_algo sig)]\<rparr>)"
      using True by (simp add: place_signature_def)
    moreover have "\<exists>s'. advance a (nextp nd) (s1\<lparr>tty := tty s1 @ [Tty_unsupported_pubkey_algo (pubkey_algo sig)]\<rparr>) = Some (Next s')
           \<and> pinv E pk os oss h0 k0 L0 s0 (pre @ [a]) rest s'
           \<and> pmeasure E pk os oss h0 L0 rest s' < pmeasure E pk os oss h0 L0 (a # rest) s"
      by (rule adv) (use same v csig kok in simp_all)
    ultimately show ?thesis by auto
  next
    case pkok: False
    show ?thesis
    proof (cases "openpgp_md_test_algo E (digest_algo sig) \<noteq> 0")
      case True
      then have v: "?V (current_component s) a = Unsupported" using V c by (simp add: judge_def)
      have "place_signature E pk a (nextp nd) sig iss s1
            = advance a (nextp nd) (s1\<lparr>tty := tty s1 @ [Tty_unsupported_digest_algo (digest_algo sig)]\<rparr>)"
        using True pkok by (simp add: place_signature_def)
      moreover have "\<exists>s'. advance a (nextp nd) (s1\<lparr>tty := tty s1 @ [Tty_unsupported_digest_algo (digest_algo sig)]\<rparr>) = Some (Next s')
             \<and> pinv E pk os oss h0 k0 L0 s0 (pre @ [a]) rest s'
             \<and> pmeasure E pk os oss h0 L0 rest s' < pmeasure E pk os oss h0 L0 (a # rest) s"
        by (rule adv) (use same v csig kok in simp_all)
      ultimately show ?thesis by auto
    next
      case mdok: False
      have srch: "loop (search_step E (mem s1) (kb s1) (current_component s1) iss sig pk)
                    (current_component s1, False)
                  = Some (Inr (find (verifies E h0 iss sig pk) (c # filter (\<lambda>t. t \<noteq> c) ?L)))"
        using search_loop [OF L nc, of E iss sig pk] same c ver by simp
      let ?f = "find (verifies E h0 iss sig pk) (c # filter (\<lambda>t. t \<noteq> c) ?L)"
      have ps: "place_signature E pk a (nextp nd) sig iss s1
          = (if current_component s1 = ?f then advance a (nextp nd) s1
             else (case ?f of
                  Some t \<Rightarrow>
                    (case mem s1 t of
                       None \<Rightarrow> Some (Done (Inl Mem_fault))
                     | Some nt \<Rightarrow>
                         if \<not> is_component (pkt nt) then Some (Done (Inl Assert_failed))
                         else
                           (case relocate a t s1 of
                              Inl e \<Rightarrow> Some (Done (Inl e))
                            | Inr s' \<Rightarrow> advance a (nextp nd) s'))
                | None \<Rightarrow> advance a (nextp nd) (s1\<lparr>bad_signature := bad_signature s1 + 1\<rparr>)))"
        using pkok mdok srch by (simp add: place_signature_def)
      show ?thesis
      proof (cases "verifies E h0 iss sig pk c")
        case True
        then have v: "?V (current_component s) a = Good" using V c pkok mdok by (simp add: judge_def)
        have "?f = Some c" using True by simp
        then have "place_signature E pk a (nextp nd) sig iss s1 = advance a (nextp nd) s1"
          using ps same c by simp
        moreover have "\<exists>s'. advance a (nextp nd) s1 = Some (Next s')
             \<and> pinv E pk os oss h0 k0 L0 s0 (pre @ [a]) rest s'
             \<and> pmeasure E pk os oss h0 L0 rest s' < pmeasure E pk os oss h0 L0 (a # rest) s"
          by (rule adv) (use same v csig kok in simp_all)
        ultimately show ?thesis by auto
      next
        case nv: False
        then have f: "?f = find (verifies E h0 iss sig pk) (filter (\<lambda>t. t \<noteq> c) ?L)" by simp
        show ?thesis
        proof (cases ?f)
          case None
          with f have "find (verifies E h0 iss sig pk) (filter (\<lambda>t. t \<noteq> c) ?L) = None"
            by (simp only:)
          then have "\<not> (\<exists>x. x \<in> set (filter (\<lambda>t. t \<noteq> c) ?L) \<and> verifies E h0 iss sig pk x)"
            unfolding find_None_iff .
          then have "\<forall>t \<in> set ?L. t \<noteq> c \<longrightarrow> \<not> verifies E h0 iss sig pk t"
            unfolding set_filter by blast
          then have "\<forall>t \<in> set L0. \<not> verifies E h0 iss sig pk t" using nv st by auto
          then have v: "?V (current_component s) a = Bad"
            using V c pkok mdok nv by (simp add: judge_def)
          have "place_signature E pk a (nextp nd) sig iss s1
                = advance a (nextp nd) (s1\<lparr>bad_signature := bad_signature s1 + 1\<rparr>)"
            using ps None same c by simp
          moreover have "\<exists>s'. advance a (nextp nd) (s1\<lparr>bad_signature := bad_signature s1 + 1\<rparr>) = Some (Next s')
               \<and> pinv E pk os oss h0 k0 L0 s0 (pre @ [a]) rest s'
               \<and> pmeasure E pk os oss h0 L0 rest s' < pmeasure E pk os oss h0 L0 (a # rest) s"
            by (rule adv) (use same v csig kok in simp_all)
          ultimately show ?thesis by auto
        next
          case (Some t)
          with f have "find (verifies E h0 iss sig pk) (filter (\<lambda>t. t \<noteq> c) ?L) = Some t"
            by (simp only:)
          from find_Some_verifies [OF this]
          have t: "verifies E h0 iss sig pk t" "t \<in> set ?L" "t \<noteq> c"
            unfolding set_filter by blast+
          then have v: "?V (current_component s) a = Misplaced"
            using V c pkok mdok nv st by (auto simp: judge_def)
          from t(1) obtain nt0 where nt0: "h0 t = Some nt0" "\<not> deleted nt0"
            by (auto simp: verifies_def split: option.split_asm)
          then obtain nt where nt: "mem s t = Some nt"
            using content_NoneD [OF c0, of t] by (cases "mem s t") auto
          from content_SomeD [OF c0 nt] nt0 have ntp: "pkt nt0 = pkt nt" by auto
          show ?thesis
          proof (cases "is_component (pkt nt)")
            case False
            then have "place_signature E pk a (nextp nd) sig iss s1 = Some (Done (Inl Assert_failed))"
              using ps Some same c t(3) nt by simp
            then show ?thesis using v by simp
          next
            case True
            then have "t \<noteq> a" using nt nd sg by (auto simp: is_component_def)
            then have tin: "t \<in> set (pre @ rest)" using t(2) by auto
            have vt: "?V (?C c' t) a \<notin> {Misplaced, Bad, Missing_issuer}" for c'
              using ctx_step_component [of h0 t nt0 os c'] nt0 True ntp V [of t] t(1) pkok mdok
              by (auto simp: verdict_of_None judge_def)
            from pinv_relocate [OF inv nd csig same(1,2,3,4,5,7,8,9,10,11) v tin vt kok]
            obtain s2 s' pre' rest' where
              "relocate a t s1 = Inr s2" "advance a (nextp nd) s2 = Some (Next s')"
              "pinv E pk os oss h0 k0 L0 s0 pre' rest' s'"
              "pmeasure E pk os oss h0 L0 rest' s' < pmeasure E pk os oss h0 L0 (a # rest) s"
              by blast
            moreover have "place_signature E pk a (nextp nd) sig iss s1
                  = (case relocate a t s1 of Inl e \<Rightarrow> Some (Done (Inl e))
                     | Inr s' \<Rightarrow> advance a (nextp nd) s')"
              using ps Some same c t(3) nt True by simp
            ultimately show ?thesis by auto
          qed
        qed
      qed
    qed
  qed
qed

lemma place_step_pinv:
  assumes inv: "pinv E pk os oss h0 k0 L0 s0 pre (a # rest) s"
  shows "(\<exists>s' pre' rest'. place_step E pk os oss s = Some (Next s')
            \<and> pinv E pk os oss h0 k0 L0 s0 pre' rest' s'
            \<and> pmeasure E pk os oss h0 L0 rest' s' < pmeasure E pk os oss h0 L0 (a # rest) s)
         \<or> (place_step E pk os oss s = Some (Done (Inl Assert_failed))
             \<and> (verdict_of E pk oss h0 L0 (current_component s) a = Misplaced
                  \<or> \<not> key_ok pk h0 a))"
proof -
  let ?V = "verdict_of E pk oss h0 L0" and ?C = "ctx_step os h0"
  from inv obtain nd where n: "n_node s = Some a" and nd: "mem s a = Some nd"
    and c0: "content (mem s) = content h0"
    by (auto simp: pinv_def)
  from content_SomeD [OF c0 nd] obtain nd0 where nd0: "h0 a = Some nd0" "pkt nd0 = pkt nd"
    "deleted nd0 = deleted nd" "sel_key nd0 = sel_key nd" "sel_uid nd0 = sel_uid nd" by auto
  note adv = pinv_advance [OF inv nd]
  let ?goal = "\<lambda>s1. \<exists>s'. advance a (nextp nd) s1 = Some (Next s')
           \<and> pinv E pk os oss h0 k0 L0 s0 (pre @ [a]) rest s'
           \<and> pmeasure E pk os oss h0 L0 rest s' < pmeasure E pk os oss h0 L0 (a # rest) s"
  have fin: ?thesis if "place_step E pk os oss s = advance a (nextp nd) s1" "?goal s1" for s1
    using that by (simp only:) blast
  show ?thesis
  proof (cases "deleted nd")
    case True
    have "place_step E pk os oss s = advance a (nextp nd) s"
      using n nd True by (simp add: place_step_def Let_def)
    moreover have "?goal s"
      by (rule adv) (use True nd0 in \<open>simp_all add: verdict_of_def ctx_step_def key_ok_def\<close>)
    ultimately show ?thesis by (rule fin)
  next
    case live: False
    let ?s = "s\<lparr>issuer := (case issuer s of Issuer_fetched _ \<Rightarrow> Issuer_null | i \<Rightarrow> i)\<rparr>"
    have nsk: "?V cc a = Skipped" if "\<not> is_signature (pkt nd)" for cc
      using that nd0 live by (cases "pkt nd") (auto simp: verdict_of_def is_signature_def)
    show ?thesis
    proof (cases "pkt nd")
      case (PKT_PUBLIC_KEY k)
      show ?thesis
      proof (cases "pk_obj k \<noteq> pk_obj pk")
        case True
        then have "place_step E pk os oss s = Some (Done (Inl Assert_failed))"
          using n nd live PKT_PUBLIC_KEY by (simp add: place_step_def Let_def)
        moreover have "\<not> key_ok pk h0 a"
          using nd0 live PKT_PUBLIC_KEY True by (simp add: key_ok_def)
        ultimately show ?thesis by simp
      next
        case False
        let ?s1 = "?s\<lparr>current_component := (if os \<and> \<not> sel_key nd then None else Some a)\<rparr>"
        have "place_step E pk os oss s = advance a (nextp nd) ?s1"
          using n nd live PKT_PUBLIC_KEY False by (simp add: place_step_def Let_def)
        moreover have "?goal ?s1"
          by (rule adv)
             (use nd0 live PKT_PUBLIC_KEY nsk False in
               \<open>simp_all add: ctx_step_def is_signature_def key_ok_def\<close>)
        ultimately show ?thesis by (rule fin)
      qed
    next
      case (PKT_PUBLIC_SUBKEY k)
      let ?s1 = "?s\<lparr>current_component := (if os \<and> \<not> sel_key nd then None else Some a)\<rparr>"
      have "place_step E pk os oss s = advance a (nextp nd) ?s1"
        using n nd live PKT_PUBLIC_SUBKEY by (simp add: place_step_def Let_def)
      moreover have "?goal ?s1"
        by (rule adv) (use nd0 live PKT_PUBLIC_SUBKEY nsk in \<open>simp_all add: ctx_step_def is_signature_def key_ok_def\<close>)
      ultimately show ?thesis by (rule fin)
    next
      case (PKT_USER_ID u)
      let ?s1 = "?s\<lparr>current_component := (if os \<and> \<not> sel_uid nd then None else Some a)\<rparr>"
      have "place_step E pk os oss s = advance a (nextp nd) ?s1"
        using n nd live PKT_USER_ID by (simp add: place_step_def Let_def)
      moreover have "?goal ?s1"
        by (rule adv) (use nd0 live PKT_USER_ID nsk in \<open>simp_all add: ctx_step_def is_signature_def key_ok_def\<close>)
      ultimately show ?thesis by (rule fin)
    next
      case (PKT_OTHER x)
      have "place_step E pk os oss s = advance a (nextp nd) ?s"
        using n nd live PKT_OTHER by (simp add: place_step_def Let_def)
      moreover have "?goal ?s"
        by (rule adv) (use nd0 live PKT_OTHER nsk in \<open>simp_all add: ctx_step_def is_signature_def key_ok_def\<close>)
      ultimately show ?thesis by (rule fin)
    next
      case (PKT_SIGNATURE sig)
      have csig: "?C c' a = c'" for c' using nd0 PKT_SIGNATURE by (simp add: ctx_step_sig is_signature_def)
      show ?thesis
      proof (cases "current_component s")
        case None
        have "place_step E pk os oss s = advance a (nextp nd) ?s"
          using n nd live PKT_SIGNATURE None by (simp add: place_step_def Let_def)
        moreover have "?goal ?s"
          by (rule adv)
             (use None csig nd0 PKT_SIGNATURE in \<open>simp_all add: verdict_of_None key_ok_def\<close>)
        ultimately show ?thesis by (rule fin)
      next
        case (Some c)
        show ?thesis
        proof (cases "keyid_cmp (pk_keyid pk) (keyid sig) = 0")
          case True
          have ps: "place_step E pk os oss s
                = place_signature E pk a (nextp nd) sig pk (?s\<lparr>issuer := Issuer_pk\<rparr>)"
            using n nd live PKT_SIGNATURE Some True by (simp add: place_step_def Let_def)
          have V: "?V (Some c') a = judge E pk h0 L0 c' sig pk" for c'
            using nd0 live PKT_SIGNATURE True by (simp add: verdict_of_def)
          have "(\<exists>s' pre' rest'.
                    place_signature E pk a (nextp nd) sig pk (?s\<lparr>issuer := Issuer_pk\<rparr>) = Some (Next s')
                    \<and> pinv E pk os oss h0 k0 L0 s0 pre' rest' s'
                    \<and> pmeasure E pk os oss h0 L0 rest' s' < pmeasure E pk os oss h0 L0 (a # rest) s)
                \<or> (place_signature E pk a (nextp nd) sig pk (?s\<lparr>issuer := Issuer_pk\<rparr>)
                      = Some (Done (Inl Assert_failed))
                    \<and> ?V (current_component s) a = Misplaced)"
            by (rule place_signature_pinv [OF inv nd PKT_SIGNATURE live Some _ _ _ _ _ _ _ _ _ _ _ V])
               simp_all
          then show ?thesis unfolding ps by blast
        next
          case ne: False
          show ?thesis
          proof (cases oss)
            case True
            have "place_step E pk os oss s = advance a (nextp nd) ?s"
              using n nd live PKT_SIGNATURE Some ne True by (simp add: place_step_def Let_def)
            moreover have "?goal ?s"
              by (rule adv)
                 (use Some csig nd0 live PKT_SIGNATURE ne True in
                   \<open>simp_all add: verdict_of_def key_ok_def\<close>)
            ultimately show ?thesis by (rule fin)
          next
            case False
            show ?thesis
            proof (cases "get_pubkey E (keyid sig)")
              case None
              let ?s1 = "?s\<lparr>issuer := Issuer_null, missing_issuer := missing_issuer ?s + 1\<rparr>"
              have "place_step E pk os oss s = advance a (nextp nd) ?s1"
                using n nd live PKT_SIGNATURE Some ne False None by (simp add: place_step_def Let_def)
              moreover have "?goal ?s1"
                by (rule adv)
                   (use Some csig nd0 live PKT_SIGNATURE ne False None in
                     \<open>simp_all add: verdict_of_def key_ok_def\<close>)
              ultimately show ?thesis by (rule fin)
            next
              case (Some k)
              have ps: "place_step E pk os oss s
                    = place_signature E pk a (nextp nd) sig k (?s\<lparr>issuer := Issuer_fetched k\<rparr>)"
                using n nd live PKT_SIGNATURE \<open>current_component s = Some c\<close> ne False Some
                by (simp add: place_step_def Let_def)
              have V: "?V (Some c') a = judge E pk h0 L0 c' sig k" for c'
                using nd0 live PKT_SIGNATURE ne False Some by (simp add: verdict_of_def)
              have "(\<exists>s' pre' rest'.
                        place_signature E pk a (nextp nd) sig k (?s\<lparr>issuer := Issuer_fetched k\<rparr>)
                          = Some (Next s')
                        \<and> pinv E pk os oss h0 k0 L0 s0 pre' rest' s'
                        \<and> pmeasure E pk os oss h0 L0 rest' s' < pmeasure E pk os oss h0 L0 (a # rest) s)
                    \<or> (place_signature E pk a (nextp nd) sig k (?s\<lparr>issuer := Issuer_fetched k\<rparr>)
                          = Some (Done (Inl Assert_failed))
                        \<and> ?V (current_component s) a = Misplaced)"
                by (rule place_signature_pinv
                      [OF inv nd PKT_SIGNATURE live \<open>current_component s = Some c\<close>
                          _ _ _ _ _ _ _ _ _ _ _ V])
                   simp_all
              then show ?thesis unfolding ps by blast
            qed
          qed
        qed
      qed
    qed
  qed
qed

lemma place_step_pinv_end:
  assumes "pinv E pk os oss h0 k0 L0 s0 pre [] s"
  shows "place_step E pk os oss s = Some (Done (Inr s))"
  using assms by (simp add: pinv_def place_step_def)

text \<open>
  The second pass from any state that satisfies the invariant: it returns in a state that
  satisfies the invariant with every node visited, or it stops at an assertion, which
  needs a misplaced signature or a primary key other than \<open>pk\<close> in the keyblock.
\<close>

lemma place_loop_pinv:
  assumes "pinv E pk os oss h0 k0 L0 s0 pre rest s"
  shows "(loop (place_step E pk os oss) s = Some (Inl Assert_failed)
          \<and> (tally Misplaced (verdict_of E pk oss h0 L0) (ctx_step os h0) None L0 \<noteq> 0
               \<or> \<not> list_all (key_ok pk h0) L0))
         \<or> (\<exists>s' L1. loop (place_step E pk os oss) s = Some (Inr s')
                \<and> pinv E pk os oss h0 k0 L0 s0 L1 [] s')"
  using assms
proof (induction "pmeasure E pk os oss h0 L0 rest s" arbitrary: pre rest s rule: less_induct)
  case less
  show ?case
  proof (cases rest)
    case Nil
    then have "loop (place_step E pk os oss) s = Some (Inr s)"
      using place_step_pinv_end [of E pk os oss h0 k0 L0 s0 pre s] less.prems
      by (simp add: loop_Done)
    then show ?thesis using less.prems Nil by auto
  next
    case (Cons a rest')
    note inv = less.prems [unfolded Cons]
    from place_step_pinv [OF inv] show ?thesis
    proof
      assume "\<exists>s' pre' rest''. place_step E pk os oss s = Some (Next s')
            \<and> pinv E pk os oss h0 k0 L0 s0 pre' rest'' s'
            \<and> pmeasure E pk os oss h0 L0 rest'' s' < pmeasure E pk os oss h0 L0 (a # rest') s"
      then obtain s' pre' rest'' where st: "place_step E pk os oss s = Some (Next s')"
        and i: "pinv E pk os oss h0 k0 L0 s0 pre' rest'' s'"
        and m: "pmeasure E pk os oss h0 L0 rest'' s' < pmeasure E pk os oss h0 L0 rest s"
        using Cons by blast
      from less.hyps [OF m i] show ?thesis using st by (simp add: loop_Next)
    next
      assume ab: "place_step E pk os oss s = Some (Done (Inl Assert_failed))
             \<and> (verdict_of E pk oss h0 L0 (current_component s) a = Misplaced
                  \<or> \<not> key_ok pk h0 a)"
      have "a \<in> set L0" using inv by (auto simp: pinv_def)
      then have "\<not> key_ok pk h0 a \<Longrightarrow> \<not> list_all (key_ok pk h0) L0"
        by (auto simp: list_all_iff)
      moreover have "tally Misplaced (verdict_of E pk oss h0 L0) (ctx_step os h0) None L0 \<noteq> 0"
        if "verdict_of E pk oss h0 L0 (current_component s) a = Misplaced"
        using inv that by (auto simp: pinv_def)
      ultimately show ?thesis using ab by (auto simp: loop_Done)
    qed
  qed
qed

section \<open>Termination of the second pass\<close>

lemma tally_le:
  "(\<And>cc a. a \<in> set xs \<Longrightarrow> V cc a = v \<Longrightarrow> P a) \<Longrightarrow> tally v V C cc xs \<le> length (filter P xs)"
proof (induction xs arbitrary: cc)
  case Nil
  then show ?case by simp
next
  case (Cons a xs)
  have "tally v V C (C cc a) xs \<le> length (filter P xs)" using Cons by auto
  moreover have "V cc a = v \<Longrightarrow> P a" using Cons.prems by auto
  ultimately show ?case by auto
qed

lemma verdict_of_Misplaced_live_sig: "verdict_of E pk oss h L cc a = Misplaced \<Longrightarrow> live_sig h a"
  by (auto simp: verdict_of_def live_sig_def is_signature_def
      split: option.split_asm if_split_asm packet.split_asm)

lemma pinv_init:
  assumes "islist (mem s) (kb s) L" and "current_component s = None"
  shows "pinv E pk os oss (mem s) (kb s) L s [] L (s\<lparr>issuer := Issuer_null, n_prevp := Kb_var, n_node := kb s\<rparr>)"
  using assms islist_distinct [OF assms(1)] by (simp add: pinv_def ploc_def)

text \<open>
  C8.  On a well-formed keyblock, entered with no current component as the function does,
  the second pass terminates: it returns, or it stops at the assertion of line 386.  When
  it returns, the keyblock holds the same nodes, the number of relocations is the number of
  nodes that are misplaced in the keyblock at the start, each counted once and at most one
  for every signature that is not deleted, and in the order of the nodes at the end no node
  is misplaced: a relocated signature that is visited again is not moved again.
\<close>

theorem placement_pass_terminates:
  assumes "islist (mem s) (kb s) L" and "current_component s = None"
  shows "placement_pass E pk os oss s = Some (Inl Assert_failed)
         \<or> (\<exists>s' L'. placement_pass E pk os oss s = Some (Inr s')
               \<and> islist (mem s') (kb s') L' \<and> set L' = set L \<and> length L' = length L
               \<and> reordered s' = reordered s
                   + tally Misplaced (verdict_of E pk oss (mem s) L) (ctx_step os (mem s)) None L
               \<and> tally Misplaced (verdict_of E pk oss (mem s) L) (ctx_step os (mem s)) None L' = 0
               \<and> reordered s' \<le> reordered s + length (filter (live_sig (mem s)) L))"
proof -
  let ?s = "s\<lparr>issuer := Issuer_null, n_prevp := Kb_var, n_node := kb s\<rparr>"
  let ?T = "\<lambda>xs. tally Misplaced (verdict_of E pk oss (mem s) L) (ctx_step os (mem s)) None xs"
  from place_loop_pinv [OF pinv_init [OF assms]] show ?thesis
  proof
    assume "loop (place_step E pk os oss) ?s = Some (Inl Assert_failed)
        \<and> (tally Misplaced (verdict_of E pk oss (mem s) L) (ctx_step os (mem s)) None L \<noteq> 0
             \<or> \<not> list_all (key_ok pk (mem s)) L)"
    then show ?thesis by (simp add: placement_pass_def)
  next
    assume "\<exists>s' L1. loop (place_step E pk os oss) ?s = Some (Inr s')
                \<and> pinv E pk os oss (mem s) (kb s) L s L1 [] s'"
    then obtain s' L1 where lp: "loop (place_step E pk os oss) ?s = Some (Inr s')"
      and i: "pinv E pk os oss (mem s) (kb s) L s L1 [] s'" by blast
    have pp: "placement_pass E pk os oss s = Some (Inr (s'\<lparr>issuer := Issuer_null\<rparr>))"
      using lp by (simp add: placement_pass_def)
    from i have l: "islist (mem s') (kb s') L1" and st: "set L1 = set L" and d: "distinct L1"
      and r: "reordered s' = reordered s + ?T L" and z: "?T L1 = 0"
      by (auto simp: pinv_def islist_path)
    have len: "length L1 = length L"
      using d st islist_distinct [OF assms(1)] by (metis distinct_card)
    have "?T L \<le> length (filter (live_sig (mem s)) L)"
      by (rule tally_le) (rule verdict_of_Misplaced_live_sig)
    then show ?thesis using pp l st len r z by auto
  qed
qed

lemma ex_kb_misplaced_run:
  "(case placement_pass ex_E ex_pk False False (init_locals (mk_heap 0 ex_kb_misplaced) (Some 0)) of
      Some (Inr s') \<Rightarrow> reordered s' = 1 \<and> islist (mem s') (kb s') [0, 2, 1]
    | _ \<Rightarrow> False)"
  by code_simp

theorem placement_pass_terminates_witness:
  "islist (mem (init_locals (mk_heap 0 ex_kb_misplaced) (Some 0)))
      (kb (init_locals (mk_heap 0 ex_kb_misplaced) (Some 0))) [0, 1, 2]
   \<and> current_component (init_locals (mk_heap 0 ex_kb_misplaced) (Some 0)) = None
   \<and> (\<exists>s'. placement_pass ex_E ex_pk False False (init_locals (mk_heap 0 ex_kb_misplaced) (Some 0))
              = Some (Inr s')
          \<and> islist (mem s') (kb s') [0, 2, 1]
          \<and> reordered s' = 1
          \<and> tally Misplaced (verdict_of ex_E ex_pk False (mk_heap 0 ex_kb_misplaced) [0, 1, 2])
               (ctx_step False (mk_heap 0 ex_kb_misplaced)) None [0, 2, 1] = 0)"
proof -
  let ?s = "init_locals (mk_heap 0 ex_kb_misplaced) (Some 0)"
  have pre: "islist (mem ?s) (kb ?s) [0, 1, 2]" "current_component ?s = None"
    by (simp_all add: init_locals_def ex_kb_misplaced_def mk_node_def)
  from ex_kb_misplaced_run obtain s1 where
    run: "placement_pass ex_E ex_pk False False ?s = Some (Inr s1)"
    and l1: "islist (mem s1) (kb s1) [0, 2, 1]" and r1: "reordered s1 = 1"
    by (auto split: option.split_asm sum.split_asm)
  from placement_pass_terminates [OF pre, of ex_E ex_pk False False] run
  obtain L' where "islist (mem s1) (kb s1) L'"
    "tally Misplaced (verdict_of ex_E ex_pk False (mem ?s) [0, 1, 2]) (ctx_step False (mem ?s)) None L' = 0"
    by auto
  moreover from this(1) l1 have "L' = [0, 2, 1]" by (rule islist_unique)
  moreover have "mem ?s = mk_heap 0 ex_kb_misplaced" by (simp add: init_locals_def)
  ultimately show ?thesis using pre run l1 r1 by auto
qed

section \<open>A whole run on a well-formed keyblock\<close>

lemma live_sig_sig_at: "live_sig h a \<Longrightarrow> sig_at h a \<noteq> None"
  by (auto simp: live_sig_def sig_at_def is_signature_def split: option.splits packet.splits)

lemma dedup_pass_none:
  assumes "islist (mem s) (kb s) L" and "filter (live_sig (mem s)) L = []"
  shows "dedup_pass E s = Some (Inr (None, s))"
  using count_loop [OF assms(1), of 0] assms(2) by (simp add: dedup_pass_def)

lemma dedup_pass_nomem:
  assumes "islist (mem s) (kb s) L" and "filter (live_sig (mem s)) L \<noteq> []"
    and "\<not> xtrycalloc E (int (length (filter (live_sig (mem s)) L)))"
  shows "dedup_pass E s = Some (Inr (None, s\<lparr>tty := tty s @ [Log_error_allocating_memory]\<rparr>))"
  using count_loop [OF assms(1), of 0] assms(2,3) by (simp add: dedup_pass_def)

lemma dedup_pass_run:
  assumes l: "islist (mem s) (kb s) L"
    and ne: "filter (live_sig (mem s)) L \<noteq> []"
    and al: "xtrycalloc E (int (length (filter (live_sig (mem s)) L)))"
    and X: "X = qsort E (sig_comparison_nodes E (mem s)) (filter (live_sig (mem s)) L)"
    and perm: "mset X = mset (filter (live_sig (mem s)) L)"
    and K: "K = kills (dup_of E (mem s)) X"
  shows "\<exists>s'. dedup_pass E s = Some (Inr (Some s', s'))
           \<and> islist (mem s') (kb s') (filter (\<lambda>b. b \<notin> set K) L)
           \<and> (\<forall>b \<in> set K. mem s' b = None)
           \<and> (\<forall>b. b \<notin> set K \<longrightarrow> content (mem s') b = content (mem s) b)
           \<and> dups s' = dups s + length K
           \<and> dedup_frame s s'
           \<and> (K = [] \<longrightarrow> s' = s)"
proof -
  let ?S = "filter (live_sig (mem s)) L"
  have dS: "distinct ?S" using islist_distinct [OF l] by simp
  have sX: "set X = set ?S" using perm by (metis set_mset_mset)
  have lX: "length X = length ?S" using perm by (metis size_mset)
  have dX: "distinct X" using dS perm by (metis distinct_count_atmost_1 count_mset_0_iff mset_eq_setD set_mset_mset distinct_count_atmost_1)
  from ne lX obtain y rest where yr: "X = y # rest" by (cases X) auto
  have sub: "set (y # rest) \<subseteq> set L" using sX yr by auto
  have sg: "\<forall>b \<in> set (y # rest). sig_at (mem s) b \<noteq> None"
    using sX yr live_sig_sig_at by auto
  have n: "length ?S = 0 + 1 + length rest" using lX yr by simp
  from dedup_scan [OF l sub dX [unfolded yr] sg _ n, of "[]" E]
  obtain s' where
    lp: "loop (dedup_step E (length ?S)) (map Some (y # rest), 0, 1, s) = Some (Inr s')"
    and r: "islist (mem s') (kb s') (filter (\<lambda>b. b \<notin> set K) L)"
      "\<forall>b \<in> set K. mem s' b = None"
      "\<forall>b. b \<notin> set K \<longrightarrow> content (mem s') b = content (mem s) b"
      "dups s' = dups s + length K" "dedup_frame s s'" "K = [] \<longrightarrow> s' = s"
    unfolding K yr by auto
  have "dedup_pass E s = Some (Inr (Some s', s'))"
    using count_loop [OF l, of 0] collect_loop [OF l, of "[]" "length ?S"] ne al lp
    by (simp add: dedup_pass_def X [symmetric] yr)
  then show ?thesis using r by blast
qed

lemma advance_kb_inv:
  "advance a nx s = Some c \<Longrightarrow> kb_inv k0 s \<Longrightarrow> ctl_inv (kb_inv k0) c"
  by (auto simp: advance_def kb_inv_def split: option.split_asm)

lemma store_ptr_Next_of_kb:
  "store_ptr (Next_of a) v s = Inr s' \<Longrightarrow> kb s' = kb s \<and> n_prevp s' = n_prevp s"
  by (auto simp: store_ptr_def split: option.split_asm)

lemma relocate_kb_inv:
  assumes "relocate a t s = Inr s'" and "kb_inv k0 s"
  shows "kb_inv k0 s'"
proof -
  from relocate_Inr [OF assms(1)] obtain na s1 nt s2 s3 where
    0: "mem s a = Some na" "mem s1 t = Some nt"
    and 1: "store_ptr (n_prevp s) (nextp na) s = Inr s1"
    and 2: "store_ptr (Next_of a) (nextp nt) s1 = Inr s2"
    and 3: "store_ptr (Next_of t) (Some a) s2 = Inr s3"
    and 4: "s' = s3\<lparr>reordered := reordered s3 + 1, modified := 1\<rparr>"
    by blast
  from assms(2) obtain b where b: "n_prevp s = Next_of b" by (cases "n_prevp s") (auto simp: kb_inv_def)
  from 1 b have "kb s1 = kb s \<and> n_prevp s1 = n_prevp s" by (simp add: store_ptr_Next_of_kb)
  with store_ptr_Next_of_kb [OF 2] store_ptr_Next_of_kb [OF 3] 4 assms(2)
  show ?thesis by (simp add: kb_inv_def)
qed

lemma kb_inv_upd [simp]:
  "kb_inv k0 (s\<lparr>issuer := i\<rparr>) = kb_inv k0 s"
  "kb_inv k0 (s\<lparr>tty := m\<rparr>) = kb_inv k0 s"
  "kb_inv k0 (s\<lparr>current_component := c\<rparr>) = kb_inv k0 s"
  "kb_inv k0 (s\<lparr>missing_issuer := x\<rparr>) = kb_inv k0 s"
  "kb_inv k0 (s\<lparr>bad_signature := y\<rparr>) = kb_inv k0 s"
  by (simp_all add: kb_inv_def)

lemma place_signature_kb_inv:
  "place_signature E pk a nx sig iss s = Some c \<Longrightarrow> kb_inv k0 s \<Longrightarrow> ctl_inv (kb_inv k0) c"
  unfolding place_signature_def
  by (auto split: if_split_asm option.split_asm sum.split_asm
           dest!: relocate_kb_inv dest: advance_kb_inv)

lemma place_step_kb_inv:
  "place_step E pk os oss s = Some c \<Longrightarrow> kb_inv k0 s \<Longrightarrow> ctl_inv (kb_inv k0) c"
  unfolding place_step_def Let_def
  by (auto split: if_split_asm option.split_asm packet.split_asm
           dest: advance_kb_inv place_signature_kb_inv)

lemma place_loop_kb:
  assumes run: "loop (place_step E pk os oss) s = Some (Inr s')" and "kb_inv k0 s"
  shows "kb s' = k0"
proof -
  have "res_inv (kb_inv k0) (Inr s')"
    by (rule loop_rule [OF run, where I = "kb_inv k0"])
       (use assms(2) place_step_kb_inv in \<open>force simp: ctl_inv_def split: ctl.splits\<close>)+
  then show ?thesis by (simp add: kb_inv_def)
qed

text \<open>The first round of the second pass when the head is not a signature to place.\<close>

lemma placement_pass_kb:
  assumes run: "placement_pass E pk os oss s = Some (Inr s')"
    and hd: "\<And>a. kb s = Some a \<Longrightarrow> \<not> live_sig (mem s) a"
  shows "kb s' = kb s"
proof -
  let ?s = "s\<lparr>issuer := Issuer_null, n_prevp := Kb_var, n_node := kb s\<rparr>"
  from run obtain s1 where lp: "loop (place_step E pk os oss) ?s = Some (Inr s1)"
    and s': "s' = s1\<lparr>issuer := Issuer_null\<rparr>"
    by (auto simp: placement_pass_def bind_res_Some)
  show ?thesis
  proof (cases "kb s")
    case None
    then have "place_step E pk os oss ?s = Some (Done (Inr ?s))" by (simp add: place_step_def)
    then have "loop (place_step E pk os oss) ?s = Some (Inr ?s)" by (simp add: loop_Done)
    with lp have "s1 = ?s" by simp
    then have "kb s1 = kb s" by simp
    with s' show ?thesis by simp
  next
    case (Some a)
    from lp obtain c where st: "place_step E pk os oss ?s = Some c"
      by (cases "place_step E pk os oss ?s") (auto simp: loop_None)
    from lp st obtain s2 where c: "c = Next s2"
      and lp2: "loop (place_step E pk os oss) s2 = Some (Inr s1)"
    proof (cases c)
      case (Next s2)
      then show ?thesis using that lp st by (simp add: loop_Next)
    next
      case (Done r)
      then have "r = Inr s1" using lp st by (simp add: loop_Done)
      then have "place_step E pk os oss ?s = Some (Done (Inr s1))" using st Done by simp
      then have False using Some hd [OF Some]
        unfolding place_step_def Let_def
        by (auto simp: advance_def live_sig_def is_signature_def
            split: option.split_asm if_split_asm packet.split_asm)
      then show ?thesis ..
    qed
    have "kb_inv (kb s) s2"
      using st c Some hd [OF Some]
      unfolding place_step_def Let_def
      by (auto simp: advance_def live_sig_def is_signature_def kb_inv_def
          split: option.split_asm if_split_asm packet.split_asm)
    from place_loop_kb [OF lp2 this] s' show ?thesis by simp
  qed
qed

lemma audit_pass_run:
  assumes "islist (mem s) (kb s) ys"
  shows "\<exists>s'. audit_pass pk s = Some (Inr s')
           \<and> missing_selfsig s' = missing_selfsig s + missing_selfsigs pk (node_pkts (mem s) ys)
           \<and> audit_frame s s'"
proof -
  let ?s = "s\<lparr>has_selfsig := False, current_component := None, n_node := kb s\<rparr>"
  have "islist (mem ?s) (n_node ?s) ys" using assms by simp
  from audit_loop [OF this, of pk] obtain s' where
    "loop (audit_step pk) ?s = Some (Inr s')"
    "missing_selfsig s' = missing_selfsig ?s
       + pending pk (mem ?s) (current_component ?s) (has_selfsig ?s) (node_pkts (mem ?s) ys)
       + missing_selfsigs pk (node_pkts (mem ?s) ys)"
    "audit_frame ?s s'"
    by auto
  then show ?thesis by (auto simp: audit_pass_def audit_frame_def)
qed

lemma audit_frame_fields:
  assumes "audit_frame s s'"
  shows "mem s' = mem s" "kb s' = kb s" "dups s' = dups s" "missing_issuer s' = missing_issuer s"
    "reordered s' = reordered s" "bad_signature s' = bad_signature s" "modified s' = modified s"
proof -
  from assms have e:
    "s'\<lparr>n_node := None, current_component := None, has_selfsig := False, missing_selfsig := 0\<rparr>
     = s\<lparr>n_node := None, current_component := None, has_selfsig := False, missing_selfsig := 0\<rparr>"
    by (simp add: audit_frame_def)
  from arg_cong [OF e, of mem] show "mem s' = mem s" by simp
  from arg_cong [OF e, of kb] show "kb s' = kb s" by simp
  from arg_cong [OF e, of dups] show "dups s' = dups s" by simp
  from arg_cong [OF e, of missing_issuer] show "missing_issuer s' = missing_issuer s" by simp
  from arg_cong [OF e, of reordered] show "reordered s' = reordered s" by simp
  from arg_cong [OF e, of bad_signature] show "bad_signature s' = bad_signature s" by simp
  from arg_cong [OF e, of modified] show "modified s' = modified s" by simp
qed

lemma judge_content:
  assumes "content h' = content h" and "set L' = set L"
  shows "judge E pk h' L' = judge E pk h L"
  by (intro ext) (simp add: judge_def verifies_content [OF assms(1)] assms(2))

lemma verdict_of_content:
  assumes "content h' = content h" and "set L' = set L"
  shows "verdict_of E pk oss h' L' = verdict_of E pk oss h L"
proof (intro ext)
  fix cc a
  show "verdict_of E pk oss h' L' cc a = verdict_of E pk oss h L cc a"
  proof (cases "h' a")
    case None
    then have "h a = None" using content_NoneD [OF assms(1), of a] by simp
    then show ?thesis using None by (simp add: verdict_of_def)
  next
    case (Some nd')
    from content_SomeD [OF assms(1) Some] obtain nd where "h a = Some nd" "pkt nd = pkt nd'"
      "deleted nd = deleted nd'" by auto
    then show ?thesis using Some unfolding verdict_of_def judge_content [OF assms] by simp
  qed
qed

lemma key_ok_content:
  assumes "content h' = content h"
  shows "key_ok pk h' = key_ok pk h"
proof (intro ext)
  fix a
  show "key_ok pk h' a = key_ok pk h a"
  proof (cases "h' a")
    case None
    then have "h a = None" using content_NoneD [OF assms(1), of a] by simp
    then show ?thesis using None by (simp add: key_ok_def)
  next
    case (Some nd')
    from content_SomeD [OF assms(1) Some] obtain nd where "h a = Some nd" "pkt nd = pkt nd'"
      "deleted nd = deleted nd'" by auto
    then show ?thesis using Some by (simp add: key_ok_def)
  qed
qed

lemma live_sig_content: "content h' b = content h b \<Longrightarrow> live_sig h' b = live_sig h b"
  by (cases "h b"; cases "h' b") (auto simp: content_def live_sig_def)

lemma node_pkts_content: "content h' = content h \<Longrightarrow> node_pkts h' xs = node_pkts h xs"
proof (induction xs)
  case Nil
  then show ?case by simp
next
  case (Cons a xs)
  show ?case
  proof (cases "h' a")
    case None
    then have "h a = None" using content_NoneD [OF Cons.prems, of a] by simp
    then show ?thesis using None Cons by (simp add: node_pkts_def)
  next
    case (Some nd')
    from content_SomeD [OF Cons.prems Some] obtain nd where "h a = Some nd" "pkt nd = pkt nd'"
      "deleted nd = deleted nd'" by auto
    then show ?thesis using Some Cons by (simp add: node_pkts_Cons)
  qed
qed

text \<open>The second pass on a well-formed keyblock, from its entry.\<close>

lemma placement_pass_run:
  assumes "islist (mem s) (kb s) L" and "current_component s = None"
  shows "(placement_pass E pk os oss s = Some (Inl Assert_failed)
          \<and> (tally Misplaced (verdict_of E pk oss (mem s) L) (ctx_step os (mem s)) None L \<noteq> 0
               \<or> \<not> list_all (key_ok pk (mem s)) L))
         \<or> (\<exists>s1 L1. placement_pass E pk os oss s = Some (Inr (s1\<lparr>issuer := Issuer_null\<rparr>))
                \<and> pinv E pk os oss (mem s) (kb s) L s L1 [] s1)"
  using place_loop_pinv [OF pinv_init [OF assms], of E pk os oss]
  by (auto simp: placement_pass_def)

lemma dedup_frame_init:
  assumes "dedup_frame (init_locals h k) s"
  shows "current_component s = None" "missing_issuer s = 0" "bad_signature s = 0"
    "reordered s = 0" "missing_selfsig s = 0"
  using assms by (simp_all add: dedup_frame_def heap_frame_def init_locals_def)

lemma pinv_final:
  assumes "pinv E pk os oss h0 k0 L0 s0 L1 [] s"
  shows "islist (mem s) (kb s) L1" "set L1 = set L0" "distinct L1" "content (mem s) = content h0"
    "missing_issuer s = missing_issuer s0
       + tally Missing_issuer (verdict_of E pk oss h0 L0) (ctx_step os h0) None L1"
    "bad_signature s = bad_signature s0
       + tally Bad (verdict_of E pk oss h0 L0) (ctx_step os h0) None L1"
    "tally Misplaced (verdict_of E pk oss h0 L0) (ctx_step os h0) None L1 = 0"
    "reordered s = reordered s0
       + tally Misplaced (verdict_of E pk oss h0 L0) (ctx_step os h0) None L0"
    "reordered s = reordered s0 \<Longrightarrow> mem s = h0 \<and> kb s = k0"
    "dups s = dups s0"
    "modified s = (if reordered s = reordered s0 then modified s0 else 1)"
    "missing_selfsig s = missing_selfsig s0"
    "list_all (key_ok pk h0) L1"
  using assms by (auto simp: pinv_def islist_path)

lemma key_check_run:
  assumes l: "islist h k L"
    and run: "key_check_all_keysigs E h k os oss = Some (Inr (ret, s'))"
    and ne: "filter (live_sig h) L \<noteq> []"
    and al: "xtrycalloc E (int (length (filter (live_sig h) L)))"
    and X: "X = qsort E (sig_comparison_nodes E h) (filter (live_sig h) L)"
    and perm: "mset X = mset (filter (live_sig h) L)"
    and K: "K = kills (dup_of E h) X"
  obtains a0 nd0 pk sd sp s3 L1 where
    "k = Some a0" "h a0 = Some nd0" "pkt nd0 = PKT_PUBLIC_KEY pk"
    "dedup_pass E (init_locals h k) = Some (Inr (Some sd, sd))"
    "islist (mem sd) k (filter (\<lambda>b. b \<notin> set K) L)"
    "\<forall>b \<in> set K. mem sd b = None"
    "\<forall>b. b \<notin> set K \<longrightarrow> content (mem sd) b = content h b"
    "dups sd = length K" "dedup_frame (init_locals h k) sd" "kb sd = k"
    "pinv E pk os oss (mem sd) k (filter (\<lambda>b. b \<notin> set K) L) sd L1 [] sp"
    "kb sp = k"
    "audit_frame (sp\<lparr>issuer := Issuer_null\<rparr>) s3"
    "missing_selfsig s3 = missing_selfsigs pk (node_pkts (mem sp) L1)"
    "ret = modified s3" "s' = s3\<lparr>tty := tty s3 @ summary oss s3\<rparr>"
proof -
  let ?i = "init_locals h k"
  let ?L = "filter (\<lambda>b. b \<notin> set K) L"
  from run obtain a0 where k: "k = Some a0" by (cases k) (auto simp: key_check_all_keysigs_def)
  from run k obtain nd0 where nd0: "h a0 = Some nd0"
    by (cases "h a0") (auto simp: key_check_all_keysigs_def)
  from run k nd0 obtain pk where pk: "pkt nd0 = PKT_PUBLIC_KEY pk"
    by (cases "pkt nd0") (auto simp: key_check_all_keysigs_def)
  have mi: "mem ?i = h" "kb ?i = k" by (simp_all add: init_locals_def)
  from dedup_pass_run [of ?i L E X K] l ne al X perm K mi
  obtain sd where d: "dedup_pass E ?i = Some (Inr (Some sd, sd))"
    and dl: "islist (mem sd) (kb sd) ?L"
    and dk: "\<forall>b \<in> set K. mem sd b = None"
    and dc: "\<forall>b. b \<notin> set K \<longrightarrow> content (mem sd) b = content h b"
    and dd: "dups sd = dups ?i + length K" and df: "dedup_frame ?i sd"
    by auto
  have d0: "dups sd = length K" using dd by (simp add: init_locals_def)
  have "set K \<subseteq> set X" unfolding K by (rule kills_subset_all)
  also have "set X = set (filter (live_sig h) L)" using perm by (metis set_mset_mset)
  finally have Kl: "\<And>b. b \<in> set K \<Longrightarrow> live_sig h b" by auto
  have nl: "\<not> live_sig h a0" using nd0 pk by (simp add: live_sig_def is_signature_def)
  then have a0K: "a0 \<notin> set K" using Kl by blast
  from l k obtain L2 where L2: "L = a0 # L2" by (cases L) auto
  have "?L = a0 # filter (\<lambda>b. b \<notin> set K) L2" using L2 a0K by simp
  with dl have kd: "kb sd = k" using k by simp
  have nld: "\<not> live_sig (mem sd) a0" using nl live_sig_content [of "mem sd" a0 h] dc a0K by simp
  from run k nd0 pk d obtain s2 s3 where
    p: "placement_pass E pk os oss sd = Some (Inr s2)"
    and au: "audit_pass pk s2 = Some (Inr s3)"
    and r: "ret = modified s3" "s' = s3\<lparr>tty := tty s3 @ summary oss s3\<rparr>"
    by (auto simp: key_check_all_keysigs_def bind_res_Some)
  have cn: "current_component sd = None" by (rule dedup_frame_init [OF df])
  from placement_pass_run [of sd ?L E pk os oss] dl cn p obtain sp L1 where
    s2: "s2 = sp\<lparr>issuer := Issuer_null\<rparr>"
    and i: "pinv E pk os oss (mem sd) (kb sd) ?L sd L1 [] sp"
    by auto
  have "kb s2 = kb sd" by (rule placement_pass_kb [OF p]) (use kd k nld in simp)
  then have ks: "kb sp = k" using s2 kd by simp
  note f = pinv_final [OF i]
  have "islist (mem s2) (kb s2) L1" using f(1) s2 by simp
  from audit_pass_run [OF this, of pk] au obtain
    a1: "missing_selfsig s3 = missing_selfsig s2 + missing_selfsigs pk (node_pkts (mem s2) L1)"
    and a2: "audit_frame s2 s3"
    by auto
  have "missing_selfsig s2 = 0" using s2 f(12) dedup_frame_init(5) [OF df] by simp
  then have ms: "missing_selfsig s3 = missing_selfsigs pk (node_pkts (mem sp) L1)"
    using a1 s2 by simp
  show thesis
    by (rule that [OF k nd0 pk d dl [unfolded kd] dk dc d0 df kd i [unfolded kd] ks
          a2 [unfolded s2] ms r])
qed

lemma key_check_early:
  assumes run: "key_check_all_keysigs E h k os oss = Some (Inr (ret, s'))"
    and d: "dedup_pass E (init_locals h k) = Some (Inr (None, s0))"
  shows "ret = 0 \<and> s' = s0"
proof -
  from run obtain a0 where k: "k = Some a0" by (cases k) (auto simp: key_check_all_keysigs_def)
  from run k obtain nd0 where nd0: "h a0 = Some nd0"
    by (cases "h a0") (auto simp: key_check_all_keysigs_def)
  from run k nd0 obtain pk where pk: "pkt nd0 = PKT_PUBLIC_KEY pk"
    by (cases "pkt nd0") (auto simp: key_check_all_keysigs_def)
  from run k nd0 pk d show ?thesis by (simp add: key_check_all_keysigs_def)
qed

text \<open>
  What a run that allocates its array removes from a well-formed keyblock: the nodes that
  the scan of the sorted array of all signatures removes, and nothing else.
\<close>

lemma key_check_removes_kills:
  assumes l: "islist h k L"
    and run: "key_check_all_keysigs E h k os oss = Some (Inr (ret, s'))"
    and al: "xtrycalloc E (int (length (filter (live_sig h) L)))"
    and X: "X = qsort E (sig_comparison_nodes E h) (filter (live_sig h) L)"
    and perm: "mset X = mset (filter (live_sig h) L)"
    and K: "K = kills (dup_of E h) X"
  shows "dups s' = length K" and "\<forall>b \<in> set K. mem s' b = None"
    and "\<forall>b. b \<notin> set K \<longrightarrow> content (mem s') b = content h b"
    and "\<exists>L1. islist (mem s') k L1 \<and> set L1 = set L - set K"
proof -
  have "dups s' = length K \<and> (\<forall>b \<in> set K. mem s' b = None)
        \<and> (\<forall>b. b \<notin> set K \<longrightarrow> content (mem s') b = content h b)
        \<and> (\<exists>L1. islist (mem s') k L1 \<and> set L1 = set L - set K)"
  proof (cases "filter (live_sig h) L = []")
    case True
    then have "X = []" using perm by simp
    then have K0: "K = []" using K by simp
    have "dedup_pass E (init_locals h k) = Some (Inr (None, init_locals h k))"
      by (rule dedup_pass_none [of _ L]) (use l True in \<open>simp_all add: init_locals_def\<close>)
    from key_check_early [OF run this] have "s' = init_locals h k" by simp
    then show ?thesis using K0 l by (auto simp: init_locals_def)
  next
    case False
    obtain a0 nd0 pk sd sp s3 L1 where
      dl: "islist (mem sd) k (filter (\<lambda>b. b \<notin> set K) L)"
      and dk: "\<forall>b \<in> set K. mem sd b = None"
      and dc: "\<forall>b. b \<notin> set K \<longrightarrow> content (mem sd) b = content h b"
      and dd: "dups sd = length K"
      and i: "pinv E pk os oss (mem sd) k (filter (\<lambda>b. b \<notin> set K) L) sd L1 [] sp"
      and ks: "kb sp = k"
      and af: "audit_frame (sp\<lparr>issuer := Issuer_null\<rparr>) s3"
      and s': "s' = s3\<lparr>tty := tty s3 @ summary oss s3\<rparr>"
      by (rule key_check_run [OF l run False al X perm K]) (rule that; assumption)
    note f = pinv_final [OF i]
    note g = audit_frame_fields [OF af]
    have m: "mem s' = mem sp" using s' g(1) by simp
    have 1: "dups s' = length K" using s' g(3) f(10) dd by simp
    have 2: "\<forall>b \<in> set K. mem s' b = None"
      using dk content_NoneD [OF f(4)] m by simp
    have 3: "\<forall>b. b \<notin> set K \<longrightarrow> content (mem s') b = content h b"
      using dc f(4) m by simp
    have "islist (mem s') k L1" using f(1) ks m by simp
    moreover have "set L1 = set L - set K" using f(2) by auto
    ultimately show ?thesis using 1 2 3 by blast
  qed
  then show "dups s' = length K" and "\<forall>b \<in> set K. mem s' b = None"
    and "\<forall>b. b \<notin> set K \<longrightarrow> content (mem s') b = content h b"
    and "\<exists>L1. islist (mem s') k L1 \<and> set L1 = set L - set K"
    by blast+
qed

section \<open>Self-signatures only\<close>

lemma place_step_skip_foreign:
  assumes "n_node s = Some a" and "mem s a = Some nd" and "pkt nd = PKT_SIGNATURE sig"
    and "keyid sig \<noteq> pk_keyid pk"
  shows "\<exists>i. place_step E pk only_selected True s
             = Some (Next (s\<lparr>issuer := i, n_prevp := Next_of a, n_node := nextp nd\<rparr>))"
proof (cases "deleted nd")
  case True
  then have "place_step E pk only_selected True s
             = Some (Next (s\<lparr>issuer := issuer s, n_prevp := Next_of a, n_node := nextp nd\<rparr>))"
    using assms by (simp add: place_step_def advance_Some)
  then show ?thesis by blast
next
  case False
  then have "place_step E pk only_selected True s
             = Some (Next (s\<lparr>issuer := (case issuer s of Issuer_fetched _ \<Rightarrow> Issuer_null | i \<Rightarrow> i),
                               n_prevp := Next_of a, n_node := nextp nd\<rparr>))"
    using assms by (auto simp: place_step_def advance_Some Let_def keyid_cmp_def)
  then show ?thesis by blast
qed

lemma cnt_inv_upd [simp]:
  "cnt_inv d m (s\<lparr>tty := x\<rparr>) = cnt_inv d m s"
  "cnt_inv d m (s\<lparr>issuer := i\<rparr>) = cnt_inv d m s"
  "cnt_inv d m (s\<lparr>current_component := c\<rparr>) = cnt_inv d m s"
  "cnt_inv d m (s\<lparr>bad_signature := b\<rparr>) = cnt_inv d m s"
  "cnt_inv d m (s\<lparr>reordered := ro\<rparr>) = cnt_inv d m s"
  "cnt_inv d m (s\<lparr>modified := mo\<rparr>) = cnt_inv d m s"
  "cnt_inv d m (s\<lparr>missing_selfsig := ms\<rparr>) = cnt_inv d m s"
  "cnt_inv d m (s\<lparr>has_selfsig := hs\<rparr>) = cnt_inv d m s"
  "cnt_inv d m (s\<lparr>n_node := n\<rparr>) = cnt_inv d m s"
  "cnt_inv d m (s\<lparr>n_prevp := pp\<rparr>) = cnt_inv d m s"
  "cnt_inv d m (s\<lparr>mem := h\<rparr>) = cnt_inv d m s"
  "cnt_inv d m (s\<lparr>kb := k\<rparr>) = cnt_inv d m s"
  by (simp_all add: cnt_inv_def)

lemma relocate_cnt_inv: "relocate a t s = Inr s' \<Longrightarrow> cnt_inv d m s \<Longrightarrow> cnt_inv d m s'"
  by (auto dest!: relocate_shape)

lemma advance_cnt_inv: "advance a nx s = Some c \<Longrightarrow> cnt_inv d m s \<Longrightarrow> ctl_inv (cnt_inv d m) c"
  by (auto simp: advance_def split: option.split_asm)

lemma place_signature_cnt_inv:
  "place_signature E pk a nx sig iss s = Some c \<Longrightarrow> cnt_inv d m s \<Longrightarrow> ctl_inv (cnt_inv d m) c"
  unfolding place_signature_def
  by (auto split: if_split_asm option.split_asm sum.split_asm
           dest: relocate_cnt_inv advance_cnt_inv)

lemma place_step_cnt_inv:
  "place_step E pk os True s = Some c \<Longrightarrow> cnt_inv d m s \<Longrightarrow> ctl_inv (cnt_inv d m) c"
  unfolding place_step_def Let_def
  by (auto split: if_split_asm option.split_asm packet.split_asm
           dest: advance_cnt_inv place_signature_cnt_inv)

lemma place_loop_cnt_inv:
  assumes "loop (place_step E pk os True) s = Some (Inr s')"
  shows "dups s' = dups s \<and> missing_issuer s' = missing_issuer s"
proof -
  have "res_inv (cnt_inv (dups s) (missing_issuer s)) (Inr s')"
  proof (rule loop_rule [OF assms, where I = "cnt_inv (dups s) (missing_issuer s)"])
    show "cnt_inv (dups s) (missing_issuer s) s" by (simp add: cnt_inv_def)
  qed (use place_step_cnt_inv in force)+
  then show ?thesis by (simp add: cnt_inv_def)
qed

lemma audit_step_cnt_inv:
  "audit_step pk s = Some c \<Longrightarrow> cnt_inv d m s \<Longrightarrow> ctl_inv (cnt_inv d m) c"
  unfolding audit_step_def audit_component_def Let_def
  by (auto split: if_split_asm option.split_asm packet.split_asm)

lemma audit_loop_cnt_inv:
  assumes "loop (audit_step pk) s = Some (Inr s')"
  shows "dups s' = dups s \<and> missing_issuer s' = missing_issuer s"
proof -
  have "res_inv (cnt_inv (dups s) (missing_issuer s)) (Inr s')"
  proof (rule loop_rule [OF assms, where I = "cnt_inv (dups s) (missing_issuer s)"])
    show "cnt_inv (dups s) (missing_issuer s) s" by (simp add: cnt_inv_def)
  qed (use audit_step_cnt_inv in force)+
  then show ?thesis by (simp add: cnt_inv_def)
qed

lemma remove_node_missing_issuer:
  "remove_node a s = Some (Inr s') \<Longrightarrow> missing_issuer s' = missing_issuer s"
  by (erule remove_node_Inr) (auto dest!: store_ptr_shape)

lemma dedup_step_mi:
  "dedup_step E nsigs (sigs, last_i, i, s) = Some c \<Longrightarrow> missing_issuer s = m \<Longrightarrow>
   (case c of Next (sigs', last_i', i', s') \<Rightarrow> missing_issuer s' = m
    | Done r \<Rightarrow> res_inv (mi_inv m) r)"
  unfolding dedup_step_def
  by (auto simp: mi_inv_def split: if_split_asm option.split_asm packet.split_asm sum.split_asm
           dest: remove_node_missing_issuer)

lemma dedup_loop_mi:
  assumes "loop (dedup_step E nsigs) (sigs, last_i, i, s) = Some (Inr s')"
  shows "missing_issuer s' = missing_issuer s"
proof -
  have "res_inv (mi_inv (missing_issuer s)) (Inr s')"
  proof (rule loop_rule [OF assms, where I = "\<lambda>(sigs, last_i, i, s0). missing_issuer s0 = missing_issuer s"])
    show "case (sigs, last_i, i, s) of (sigs, last_i, i, s0) \<Rightarrow> missing_issuer s0 = missing_issuer s"
      by simp
  next
    fix st st'
    assume "case st of (sigs, last_i, i, s0) \<Rightarrow> missing_issuer s0 = missing_issuer s"
      "dedup_step E nsigs st = Some (Next st')"
    then show "case st' of (sigs, last_i, i, s0) \<Rightarrow> missing_issuer s0 = missing_issuer s"
      using dedup_step_mi [of E nsigs _ _ _ _ "Next st'"] by (cases st; cases st') auto
  next
    fix st r
    assume "case st of (sigs, last_i, i, s0) \<Rightarrow> missing_issuer s0 = missing_issuer s"
      "dedup_step E nsigs st = Some (Done r)"
    then show "res_inv (mi_inv (missing_issuer s)) r"
      using dedup_step_mi [of E nsigs _ _ _ _ "Done r"] by (cases st) auto
  qed
  then show ?thesis by (simp add: mi_inv_def)
qed

lemma dedup_pass_mi:
  assumes "dedup_pass E s = Some (Inr (r, s'))"
  shows "missing_issuer s' = missing_issuer s"
  using assms
  by (auto simp: dedup_pass_def bind_res_Some split: if_split_asm dest!: dedup_loop_mi)

lemma selfsigs_run:
  assumes run: "key_check_all_keysigs E h k only_selected True = Some (Inr (ret, s'))"
  shows "missing_issuer s' = 0
         \<and> (\<exists>r s0. dedup_pass E (init_locals h k) = Some (Inr (r, s0)) \<and> dups s' = dups s0)"
proof -
  from run obtain a where k: "k = Some a" by (cases k) (auto simp: key_check_all_keysigs_def)
  from run k obtain nd where nd: "h a = Some nd"
    by (cases "h a") (auto simp: key_check_all_keysigs_def)
  from run k nd obtain pk where pk: "pkt nd = PKT_PUBLIC_KEY pk"
    by (cases "pkt nd") (auto simp: key_check_all_keysigs_def)
  from run k nd pk obtain x where
    d0: "dedup_pass E (init_locals h k) = Some (Inr x)" and
    rest0: "(case x of (None, s) \<Rightarrow> Some (Inr (0, s))
            | (Some s1, _) \<Rightarrow> bind_res (placement_pass E pk only_selected True s1) (\<lambda>s2.
                  bind_res (audit_pass pk s2) (\<lambda>s3.
                    Some (Inr (modified s3, s3\<lparr>tty := tty s3 @ summary True s3\<rparr>)))))
           = Some (Inr (ret, s'))"
    by (auto simp: key_check_all_keysigs_def bind_res_Some)
  obtain r s0 where x: "x = (r, s0)" by (cases x)
  note d = d0 [unfolded x]
  have m0: "missing_issuer s0 = 0" using dedup_pass_mi [OF d] by (simp add: init_locals_def)
  have "missing_issuer s' = 0 \<and> dups s' = dups s0"
  proof (cases r)
    case None
    then show ?thesis using rest0 x m0 by simp
  next
    case (Some s1)
    then have s1: "s1 = s0" using dedup_pass_mod_inv [OF d] by (simp add: mod_inv_def init_locals_def)
    from rest0 x Some obtain s2 s3 where
      p: "placement_pass E pk only_selected True s1 = Some (Inr s2)"
      and au: "audit_pass pk s2 = Some (Inr s3)"
      and e: "s' = s3\<lparr>tty := tty s3 @ summary True s3\<rparr>"
      by (auto simp: bind_res_Some)
    from p obtain s2' where
      lp: "loop (place_step E pk only_selected True)
              (s1\<lparr>issuer := Issuer_null, n_prevp := Kb_var, n_node := kb s1\<rparr>) = Some (Inr s2')"
      and s2: "s2 = s2'\<lparr>issuer := Issuer_null\<rparr>"
      by (auto simp: placement_pass_def bind_res_Some)
    from place_loop_cnt_inv [OF lp] audit_loop_cnt_inv [OF au [unfolded audit_pass_def]]
    show ?thesis using s1 s2 e m0 by simp
  qed
  then show ?thesis using d by auto
qed

text \<open>
  C6.  With \<^verbatim>\<open>only_selfsigs\<close> set, a round of the second pass that meets a signature
  whose issuer key id is not that of the primary key goes on to the next node and changes
  nothing else but the scratch variable \<open>issuer\<close>: the keyblock, the current component
  and every counter stay as they are.  A whole run in this mode ends with the counter of
  missing issuers at 0.  The first pass takes no flag and looks at no issuer: on a
  well-formed keyblock, when the array is allocated and \<^verbatim>\<open>qsort\<close> permutes it, the run
  removes exactly the nodes that the scan removes from the sorted array of all signatures
  that are not deleted, whatever their issuer, and counts them in \<^verbatim>\<open>dups\<close>; every other
  node keeps its content.
\<close>

theorem only_selfsigs_skips_foreign_signatures:
  "(n_node s = Some a \<and> mem s a = Some nd \<and> pkt nd = PKT_SIGNATURE sig \<and> keyid sig \<noteq> pk_keyid pk
      \<longrightarrow> (\<exists>i. place_step E pk only_selected True s
                 = Some (Next (s\<lparr>issuer := i, n_prevp := Next_of a, n_node := nextp nd\<rparr>))))
   \<and> (key_check_all_keysigs E h k only_selected True = Some (Inr (ret, s'))
      \<longrightarrow> missing_issuer s' = 0
          \<and> (\<exists>r s0. dedup_pass E (init_locals h k) = Some (Inr (r, s0)) \<and> dups s' = dups s0)
          \<and> (islist h k L \<and> xtrycalloc E (int (length (filter (live_sig h) L)))
               \<and> mset (qsort E (sig_comparison_nodes E h) (filter (live_sig h) L))
                   = mset (filter (live_sig h) L)
             \<longrightarrow> dups s'
                   = length (kills (dup_of E h)
                       (qsort E (sig_comparison_nodes E h) (filter (live_sig h) L)))
                 \<and> (\<forall>b \<in> set (kills (dup_of E h)
                              (qsort E (sig_comparison_nodes E h) (filter (live_sig h) L))).
                       mem s' b = None)
                 \<and> (\<forall>b. b \<notin> set (kills (dup_of E h)
                              (qsort E (sig_comparison_nodes E h) (filter (live_sig h) L)))
                       \<longrightarrow> content (mem s') b = content h b)))"
proof (intro conjI impI)
  assume "n_node s = Some a \<and> mem s a = Some nd \<and> pkt nd = PKT_SIGNATURE sig \<and> keyid sig \<noteq> pk_keyid pk"
  then show "\<exists>i. place_step E pk only_selected True s
                 = Some (Next (s\<lparr>issuer := i, n_prevp := Next_of a, n_node := nextp nd\<rparr>))"
    using place_step_skip_foreign by blast
next
  assume run: "key_check_all_keysigs E h k only_selected True = Some (Inr (ret, s'))"
  show "missing_issuer s' = 0" using selfsigs_run [OF run] by simp
  show "\<exists>r s0. dedup_pass E (init_locals h k) = Some (Inr (r, s0)) \<and> dups s' = dups s0"
    using selfsigs_run [OF run] by simp
next
  let ?X = "qsort E (sig_comparison_nodes E h) (filter (live_sig h) L)"
  assume run: "key_check_all_keysigs E h k only_selected True = Some (Inr (ret, s'))"
    and w: "islist h k L \<and> xtrycalloc E (int (length (filter (live_sig h) L)))
            \<and> mset ?X = mset (filter (live_sig h) L)"
  from w have l: "islist h k L" and al: "xtrycalloc E (int (length (filter (live_sig h) L)))"
    and perm: "mset ?X = mset (filter (live_sig h) L)" by simp_all
  note r = key_check_removes_kills [OF l run al refl perm refl]
  show "dups s' = length (kills (dup_of E h) ?X)" by (rule r(1))
  show "\<forall>b \<in> set (kills (dup_of E h) ?X). mem s' b = None" by (rule r(2))
  show "\<forall>b. b \<notin> set (kills (dup_of E h) ?X) \<longrightarrow> content (mem s') b = content h b"
    by (rule r(3))
qed

lemma ex_kb_foreign_dup_run:
  "counters (key_check_all_keysigs ex_E (mk_heap 0 ex_kb_foreign_dup) (Some 0) False True)
   = Some (1, 1, 0, 0, 0, 1)"
  by code_simp

lemma ex_kb_foreign_dup_kills:
  "kills (dup_of ex_E (mk_heap 0 ex_kb_foreign_dup))
     (qsort ex_E (sig_comparison_nodes ex_E (mk_heap 0 ex_kb_foreign_dup))
        (filter (live_sig (mk_heap 0 ex_kb_foreign_dup)) [0, 1, 2, 3, 4])) = [3]"
  by code_simp

lemma ex_kb_foreign_dup_sorted:
  "mset (qsort ex_E (sig_comparison_nodes ex_E (mk_heap 0 ex_kb_foreign_dup))
           (filter (live_sig (mk_heap 0 ex_kb_foreign_dup)) [0, 1, 2, 3, 4]))
   = mset (filter (live_sig (mk_heap 0 ex_kb_foreign_dup)) [0, 1, 2, 3, 4])"
  by code_simp

lemma ex_kb_foreign_dup_flag_off:
  "(case place_step ex_E ex_pk False False
           ((init_locals (mk_heap 0 ex_kb_foreign_dup) (Some 0))
              \<lparr>n_node := Some 3, current_component := Some 1\<rparr>) of
      Some (Next s1) \<Rightarrow> missing_issuer s1 = 1
    | _ \<Rightarrow> False)"
  by code_simp

text \<open>
  The witness: under the user id at node 1 as current component, the round for the
  signature of the other key at node 3 only moves the cursor; the run on the keyblock
  removes node 3, the duplicate among the two signatures of the other key, and counts
  neither a missing issuer nor a bad signature.  Without the flag the same round counts a
  missing issuer.
\<close>

theorem only_selfsigs_skips_foreign_signatures_witness:
  "current_component ((init_locals (mk_heap 0 ex_kb_foreign_dup) (Some 0))
        \<lparr>n_node := Some 3, current_component := Some 1\<rparr>) = Some 1
   \<and> (\<exists>i. place_step ex_E ex_pk False True
          ((init_locals (mk_heap 0 ex_kb_foreign_dup) (Some 0))
             \<lparr>n_node := Some 3, current_component := Some 1\<rparr>)
        = Some (Next ((init_locals (mk_heap 0 ex_kb_foreign_dup) (Some 0))
                        \<lparr>n_node := Some 3, current_component := Some 1, issuer := i,
                          n_prevp := Next_of 3, n_node := Some 4\<rparr>)))
   \<and> (\<exists>ret s'. key_check_all_keysigs ex_E (mk_heap 0 ex_kb_foreign_dup) (Some 0) False True
                 = Some (Inr (ret, s'))
          \<and> missing_issuer s' = 0 \<and> bad_signature s' = 0 \<and> reordered s' = 0
          \<and> dups s' = 1 \<and> mem s' 3 = None
          \<and> content (mem s') 4 = content (mk_heap 0 ex_kb_foreign_dup) 4)
   \<and> (\<exists>s1. place_step ex_E ex_pk False False
          ((init_locals (mk_heap 0 ex_kb_foreign_dup) (Some 0))
             \<lparr>n_node := Some 3, current_component := Some 1\<rparr>) = Some (Next s1)
        \<and> missing_issuer s1 = 1)"
proof -
  let ?h = "mk_heap 0 ex_kb_foreign_dup"
  let ?s = "(init_locals ?h (Some 0))\<lparr>n_node := Some 3, current_component := Some 1\<rparr>"
  let ?nd = "mk_node (PKT_SIGNATURE (mk_sig (9, 9) 0x13 3 [8])) (Some 4)"
  let ?L = "[0, 1, 2, 3, 4] :: addr list"
  have pre: "n_node ?s = Some 3 \<and> mem ?s 3 = Some ?nd
             \<and> pkt ?nd = PKT_SIGNATURE (mk_sig (9, 9) 0x13 3 [8])
             \<and> keyid (mk_sig (9, 9) 0x13 3 [8]) \<noteq> pk_keyid ex_pk"
    by (simp add: init_locals_def ex_kb_foreign_dup_def mk_node_def mk_sig_def ex_pk_def)
  from ex_kb_foreign_dup_run obtain ret s' where
    run: "key_check_all_keysigs ex_E ?h (Some 0) False True = Some (Inr (ret, s'))"
    and b: "bad_signature s' = 0" "reordered s' = 0"
    by (auto simp: counters_def split: option.split_asm sum.split_asm)
  have w: "islist ?h (Some 0) ?L \<and> xtrycalloc ex_E (int (length (filter (live_sig ?h) ?L)))
           \<and> mset (qsort ex_E (sig_comparison_nodes ex_E ?h) (filter (live_sig ?h) ?L))
               = mset (filter (live_sig ?h) ?L)"
    using ex_kb_foreign_dup_sorted
    by (simp add: ex_kb_foreign_dup_def mk_node_def ex_E_def)
  note inst = only_selfsigs_skips_foreign_signatures
    [of ?s 3 ?nd "mk_sig (9, 9) 0x13 3 [8]" ex_pk ex_E False ?h "Some 0" ret s' ?L]
  from inst pre have "\<exists>i. place_step ex_E ex_pk False True ?s
        = Some (Next (?s\<lparr>issuer := i, n_prevp := Next_of 3, n_node := nextp ?nd\<rparr>))"
    by blast
  then have st: "\<exists>i. place_step ex_E ex_pk False True ?s
        = Some (Next (?s\<lparr>issuer := i, n_prevp := Next_of 3, n_node := Some 4\<rparr>))"
    by (simp add: mk_node_def)
  from inst run have mi: "missing_issuer s' = 0" by blast
  from inst run w have
    d: "dups s' = length (kills (dup_of ex_E ?h)
                    (qsort ex_E (sig_comparison_nodes ex_E ?h) (filter (live_sig ?h) ?L)))"
    and k: "\<forall>b \<in> set (kills (dup_of ex_E ?h)
                    (qsort ex_E (sig_comparison_nodes ex_E ?h) (filter (live_sig ?h) ?L))).
              mem s' b = None"
    and c: "\<forall>b. b \<notin> set (kills (dup_of ex_E ?h)
                    (qsort ex_E (sig_comparison_nodes ex_E ?h) (filter (live_sig ?h) ?L)))
              \<longrightarrow> content (mem s') b = content ?h b"
    by blast+
  have d1: "dups s' = 1" using d unfolding ex_kb_foreign_dup_kills by simp
  have k1: "mem s' 3 = None" using k unfolding ex_kb_foreign_dup_kills by simp
  have c1: "content (mem s') 4 = content ?h 4" using c unfolding ex_kb_foreign_dup_kills by simp
  have cc: "current_component ?s = Some 1" by simp
  from ex_kb_foreign_dup_flag_off have off:
    "\<exists>s1. place_step ex_E ex_pk False False ?s = Some (Next s1) \<and> missing_issuer s1 = 1"
    by (auto split: option.split_asm ctl.split_asm)
  from cc st run mi b d1 k1 c1 off show ?thesis by blast
qed

section \<open>The comparator as an order and the scan of the sorted array\<close>

lemma sig_comparison_eq_0:
  "(sig_comparison E a b = 0) =
     (digest_algo a = digest_algo b
      \<and> pubkey_get_nsig E (pubkey_algo a) = pubkey_get_nsig E (pubkey_algo b)
      \<and> (\<forall>i. int i < pubkey_get_nsig E (pubkey_algo a) \<longrightarrow> data a ! i = data b ! i))"
proof -
  have "(sig_comparison_loop (data a) (data b) (pubkey_get_nsig E (pubkey_algo a)) 0 = 0) =
        (\<forall>i. int i < pubkey_get_nsig E (pubkey_algo a) \<longrightarrow> data a ! i = data b ! i)"
    using sig_comparison_loop_eq_0 [of 0] by simp
  then show ?thesis by (auto simp: sig_comparison_def Let_def)
qed

lemma sig_comparison_loop_squeeze:
  "0 \<le> i \<Longrightarrow> sig_comparison_loop da db n i \<le> 0 \<Longrightarrow> sig_comparison_loop db dc n i \<le> 0 \<Longrightarrow>
   sig_comparison_loop da dc n i = 0 \<Longrightarrow> sig_comparison_loop da db n i = 0"
proof (induction da db n i rule: sig_comparison_loop.induct)
  case (1 da db n i)
  show ?case
  proof (cases "i < n")
    case False
    then show ?thesis by (subst sig_comparison_loop.simps) simp
  next
    case True
    from "1.prems"(4) have ac: "da ! nat i = dc ! nat i"
      using sig_comparison_loop_eq_0 [OF "1.prems"(1), of da dc n] True "1.prems"(1) by auto
    have ab: "da ! nat i = db ! nat i"
    proof (rule ccontr)
      assume ne: "da ! nat i \<noteq> db ! nat i"
      show False
      proof (cases "da ! nat i < db ! nat i")
        case True
        then have "sig_comparison_loop db dc n i = 1"
          using \<open>i < n\<close> ac by (subst sig_comparison_loop.simps) (simp add: Let_def gcry_mpi_cmp_def)
        then show False using "1.prems"(3) by simp
      next
        case False
        then have "sig_comparison_loop da db n i = 1"
          using \<open>i < n\<close> ne by (subst sig_comparison_loop.simps) (simp add: Let_def gcry_mpi_cmp_def)
        then show False using "1.prems"(2) by simp
      qed
    qed
    have s1: "sig_comparison_loop da db n i = sig_comparison_loop da db n (i + 1)"
      using True ab by (subst sig_comparison_loop.simps) (simp add: Let_def gcry_mpi_cmp_def)
    have s2: "sig_comparison_loop db dc n i = sig_comparison_loop db dc n (i + 1)"
      using True ab ac by (subst sig_comparison_loop.simps) (simp add: Let_def gcry_mpi_cmp_def)
    have s3: "sig_comparison_loop da dc n i = sig_comparison_loop da dc n (i + 1)"
      using True ac by (subst sig_comparison_loop.simps) (simp add: Let_def gcry_mpi_cmp_def)
    have "sig_comparison_loop da db n (i + 1) = 0"
      using "1.IH" [OF True refl] ab "1.prems" s1 s2 s3 by (simp add: gcry_mpi_cmp_def)
    then show ?thesis using s1 by simp
  qed
qed

lemma sig_comparison_squeeze:
  assumes "sig_comparison E a b \<le> 0" and "sig_comparison E b c \<le> 0"
    and "sig_comparison E a c = 0"
  shows "sig_comparison E a b = 0"
proof -
  from assms(3) have d: "digest_algo a = digest_algo c"
    and n: "pubkey_get_nsig E (pubkey_algo a) = pubkey_get_nsig E (pubkey_algo c)"
    by (simp_all add: sig_comparison_eq_0)
  have d1: "digest_algo a = digest_algo b"
    using assms(1,2) d by (auto simp: sig_comparison_def split: if_split_asm)
  have n1: "pubkey_get_nsig E (pubkey_algo a) = pubkey_get_nsig E (pubkey_algo b)"
    using assms(1,2) d d1 n by (auto simp: sig_comparison_def Let_def split: if_split_asm)
  let ?n = "pubkey_get_nsig E (pubkey_algo a)"
  have 1: "sig_comparison_loop (data a) (data b) ?n 0 \<le> 0"
    using assms(1) d1 n1 by (simp add: sig_comparison_def)
  have 2: "sig_comparison_loop (data b) (data c) ?n 0 \<le> 0"
    using assms(2) d d1 n n1 by (simp add: sig_comparison_def)
  have 3: "sig_comparison_loop (data a) (data c) ?n 0 = 0"
    using assms(3) d n by (simp add: sig_comparison_def)
  have "sig_comparison_loop (data a) (data b) ?n 0 = 0"
    by (rule sig_comparison_loop_squeeze [OF _ 1 2 3]) simp
  then show ?thesis using d1 n1 by (simp add: sig_comparison_def)
qed

lemma sig_comparison_sym: "sig_comparison E a b = 0 \<Longrightarrow> sig_comparison E b a = 0"
  unfolding sig_comparison_eq_0 by simp

lemma sig_comparison_trans:
  "sig_comparison E a b = 0 \<Longrightarrow> sig_comparison E b c = 0 \<Longrightarrow> sig_comparison E a c = 0"
  unfolding sig_comparison_eq_0 by simp

lemma dup_of_Some:
  "dup_of E h a b = (\<exists>x y. sig_at h a = Some x \<and> sig_at h b = Some y \<and> sig_comparison E x y = 0)"
  by (cases "sig_at h a"; cases "sig_at h b") (simp_all add: dup_of_def)

lemma dup_of_sym: "dup_of E h a b \<Longrightarrow> dup_of E h b a"
  unfolding dup_of_Some by (blast intro: sig_comparison_sym)

lemma dup_of_trans: "dup_of E h a b \<Longrightarrow> dup_of E h b c \<Longrightarrow> dup_of E h a c"
  unfolding dup_of_Some by (metis option.inject sig_comparison_trans)

lemma dup_of_squeeze:
  assumes "sig_comparison_nodes E h a b \<le> 0" and "sig_comparison_nodes E h b c \<le> 0"
    and "dup_of E h a c" and "sig_at h b \<noteq> None"
  shows "dup_of E h a b"
proof -
  from assms(3) obtain x z where x: "sig_at h a = Some x" and z: "sig_at h c = Some z"
    and e: "sig_comparison E x z = 0" unfolding dup_of_Some by blast
  from assms(4) obtain y where y: "sig_at h b = Some y" by blast
  have "sig_comparison E x y \<le> 0" "sig_comparison E y z \<le> 0"
    using assms(1,2) x y z by (simp_all add: sig_comparison_nodes_def)
  then have "sig_comparison E x y = 0" using e by (rule sig_comparison_squeeze)
  then show ?thesis using x y unfolding dup_of_Some by simp
qed

lemma dup_of_content:
  "content h' a = content h a \<Longrightarrow> content h' b = content h b \<Longrightarrow> dup_of E h' a b = dup_of E h a b"
  unfolding dup_of_def by (simp only: sig_at_content [of h' a h] sig_at_content [of h' b h])

lemma kills_hd: "eq x y \<Longrightarrow> x \<in> set (kills eq (x # y # ys))"
  by simp

lemma kills_append_subset: "set (kills eq ys) \<subseteq> set (kills eq (xs @ ys))"
proof (induction xs)
  case Nil
  then show ?case by simp
next
  case (Cons x xs)
  have "set (kills eq (xs @ ys)) \<subseteq> set (kills eq (x # xs @ ys))"
    by (cases "xs @ ys") auto
  with Cons show ?case by auto
qed

text \<open>
  In a sorted array an entry that has a duplicate further on equals its successor, so the
  scan removes it.
\<close>

lemma kills_sorted_dup:
  assumes srt: "sorted_wrt (\<lambda>a b. sig_comparison_nodes E h a b \<le> 0) X"
    and sg: "\<forall>b \<in> set X. sig_at h b \<noteq> None"
    and X: "X = A @ x # B @ y # C" and dup: "dup_of E h x y"
  shows "x \<in> set (kills (dup_of E h) X)"
proof -
  let ?le = "\<lambda>a b. sig_comparison_nodes E h a b \<le> 0"
  have xy: "?le x y" "\<forall>b \<in> set B. ?le x b \<and> ?le b y"
    using srt unfolding X by (auto simp: sorted_wrt_append)
  have "x \<in> set (kills (dup_of E h) (x # B @ y # C))"
  proof (cases B)
    case Nil
    then show ?thesis using dup by simp
  next
    case (Cons b B')
    then have le: "?le x b" "?le b y" using xy by auto
    have "sig_at h b \<noteq> None" using sg X Cons by auto
    with le dup have "dup_of E h x b" by (rule dup_of_squeeze)
    then show ?thesis using Cons by simp
  qed
  then show ?thesis unfolding X using kills_append_subset [of "dup_of E h" "x # B @ y # C" A]
    by auto
qed

lemma two_in_list:
  assumes "x \<in> set X" and "y \<in> set X" and "x \<noteq> y"
  shows "(\<exists>A B C. X = A @ x # B @ y # C) \<or> (\<exists>A B C. X = A @ y # B @ x # C)"
proof -
  from assms(1) obtain A R where X: "X = A @ x # R" by (auto dest: split_list)
  show ?thesis
  proof (cases "y \<in> set A")
    case True
    then obtain A1 A2 where "A = A1 @ y # A2" by (auto dest: split_list)
    then have "X = A1 @ y # A2 @ x # R" using X by simp
    then show ?thesis by blast
  next
    case False
    then have "y \<in> set R" using assms(2,3) X by auto
    then obtain R1 R2 where "R = R1 @ y # R2" by (auto dest: split_list)
    then have "X = A @ x # R1 @ y # R2" using X by simp
    then show ?thesis by blast
  qed
qed

text \<open>After the scan of a sorted array no two entries that remain are duplicates.\<close>

lemma survivors_differ:
  assumes srt: "sorted_wrt (\<lambda>a b. sig_comparison_nodes E h a b \<le> 0) X"
    and sg: "\<forall>b \<in> set X. sig_at h b \<noteq> None"
    and x: "x \<in> set X" "x \<notin> set (kills (dup_of E h) X)"
    and y: "y \<in> set X" "y \<notin> set (kills (dup_of E h) X)"
    and ne: "x \<noteq> y"
  shows "\<not> dup_of E h x y"
proof
  assume d: "dup_of E h x y"
  from two_in_list [OF x(1) y(1) ne] show False
  proof
    assume "\<exists>A B C. X = A @ x # B @ y # C"
    then obtain A B C where "X = A @ x # B @ y # C" by blast
    from kills_sorted_dup [OF srt sg this d] x(2) show False by simp
  next
    assume "\<exists>A B C. X = A @ y # B @ x # C"
    then obtain A B C where "X = A @ y # B @ x # C" by blast
    from kills_sorted_dup [OF srt sg this dup_of_sym [OF d]] y(2) show False by simp
  qed
qed

lemma kills_Nil:
  assumes "\<And>u v. u \<in> set xs \<Longrightarrow> v \<in> set xs \<Longrightarrow> u \<noteq> v \<Longrightarrow> \<not> eq u v" and "distinct xs"
  shows "kills eq xs = []"
  using assms
proof (induction xs)
  case Nil
  then show ?case by simp
next
  case (Cons x xs)
  have t: "kills eq xs = []"
  proof (rule Cons.IH)
    fix u v
    assume "u \<in> set xs" "v \<in> set xs" "u \<noteq> v"
    then show "\<not> eq u v" using Cons.prems(1) [of u v] by simp
  next
    show "distinct xs" using Cons.prems(2) by simp
  qed
  show ?case
  proof (cases xs)
    case Nil
    then show ?thesis by simp
  next
    case (Cons y ys)
    then have "x \<noteq> y" using Cons.prems(2) by auto
    then have "\<not> eq x y" using Cons.prems(1) [of x y] Cons by simp
    then show ?thesis using t Cons by simp
  qed
qed

text \<open>Every entry that the scan removes has a duplicate that the scan keeps.\<close>

lemma kills_partner:
  assumes tr: "\<And>a b c. eq a b \<Longrightarrow> eq b c \<Longrightarrow> eq a c"
  shows "distinct xs \<Longrightarrow> a \<in> set (kills eq xs) \<Longrightarrow>
         \<exists>b \<in> set xs. b \<notin> set (kills eq xs) \<and> eq a b"
proof (induction xs arbitrary: a)
  case Nil
  then show ?case by simp
next
  case (Cons x xs)
  show ?case
  proof (cases xs)
    case Nil
    then show ?thesis using Cons.prems by simp
  next
    case (Cons y ys)
    note xs = this
    have d: "distinct xs" "x \<notin> set xs" using Cons.prems(1) by simp_all
    have sub: "set (kills eq xs) \<subseteq> set xs" by (rule kills_subset_all)
    have ks: "set (kills eq (x # xs)) = (if eq x y then {x} else {}) \<union> set (kills eq xs)"
      using xs by simp
    have surv: "b \<notin> set (kills eq (x # xs))" if "b \<in> set xs" "b \<notin> set (kills eq xs)" for b
      using that d(2) ks by auto
    show ?thesis
    proof (cases "a \<in> set (kills eq xs)")
      case True
      from Cons.IH [OF d(1) True] obtain b where
        b: "b \<in> set xs" "b \<notin> set (kills eq xs)" "eq a b" by blast
      from surv [OF b(1,2)] b show ?thesis by auto
    next
      case False
      then have ax: "a = x" and e: "eq x y" using Cons.prems(2) ks by (auto split: if_split_asm)
      show ?thesis
      proof (cases "y \<in> set (kills eq xs)")
        case True
        from Cons.IH [OF d(1) True] obtain b where
          b: "b \<in> set xs" "b \<notin> set (kills eq xs)" "eq y b" by blast
        have "eq a b" unfolding ax using e b(3) by (rule tr)
        with surv [OF b(1,2)] b(1) show ?thesis by auto
      next
        case False
        have "y \<in> set xs" using xs by simp
        from surv [OF this False] this e ax show ?thesis by auto
      qed
    qed
  qed
qed

section \<open>Conservation of the signatures\<close>

lemma kills_distinct: "distinct xs \<Longrightarrow> distinct (kills eq xs)"
proof (induction xs)
  case Nil
  then show ?case by simp
next
  case (Cons x xs)
  have sub: "set (kills eq xs) \<subseteq> set xs" by (rule kills_subset_all)
  show ?case
  proof (cases xs)
    case Nil
    then show ?thesis by simp
  next
    case (Cons y ys)
    then show ?thesis using Cons.IH Cons.prems sub by auto
  qed
qed

lemma key_check_nomem:
  assumes l: "islist h k L"
    and run: "key_check_all_keysigs E h k os oss = Some (Inr (ret, s'))"
    and al: "\<not> xtrycalloc E (int (length (filter (live_sig h) L)))"
  shows "mem s' = h" "dups s' = 0"
proof -
  let ?i = "init_locals h k"
  have "\<exists>s0. dedup_pass E ?i = Some (Inr (None, s0)) \<and> mem s0 = h \<and> dups s0 = 0"
  proof (cases "filter (live_sig h) L = []")
    case True
    have "dedup_pass E ?i = Some (Inr (None, ?i))"
      by (rule dedup_pass_none [of _ L]) (use l True in \<open>simp_all add: init_locals_def\<close>)
    then show ?thesis by (simp add: init_locals_def)
  next
    case False
    have "dedup_pass E ?i = Some (Inr (None, ?i\<lparr>tty := tty ?i @ [Log_error_allocating_memory]\<rparr>))"
      by (rule dedup_pass_nomem [of _ L]) (use l False al in \<open>simp_all add: init_locals_def\<close>)
    then show ?thesis by (simp add: init_locals_def)
  qed
  then obtain s0 where d: "dedup_pass E ?i = Some (Inr (None, s0))" and m: "mem s0 = h" "dups s0 = 0"
    by blast
  from key_check_early [OF run d] m show "mem s' = h" "dups s' = 0" by simp_all
qed

text \<open>The nodes that a run removes from a well-formed keyblock, without the array.\<close>

lemma key_check_conserves:
  assumes l: "islist h k L"
    and run: "key_check_all_keysigs E h k os oss = Some (Inr (ret, s'))"
    and perm: "mset (qsort E (sig_comparison_nodes E h) (filter (live_sig h) L))
               = mset (filter (live_sig h) L)"
  shows "\<exists>L1. islist (mem s') k L1 \<and> set L1 \<subseteq> set L
           \<and> (\<forall>b \<in> set L1. content (mem s') b = content h b)
           \<and> (\<forall>a \<in> set L - set L1.
                 mem s' a = None \<and> live_sig h a \<and> (\<exists>b \<in> set L1. b \<noteq> a \<and> dup_of E h a b))
           \<and> dups s' = card (set L - set L1)"
proof (cases "xtrycalloc E (int (length (filter (live_sig h) L)))")
  case False
  from key_check_nomem [OF l run False] l show ?thesis by (intro exI [of _ L]) simp
next
  case True
  let ?X = "qsort E (sig_comparison_nodes E h) (filter (live_sig h) L)"
  let ?K = "kills (dup_of E h) ?X"
  note r = key_check_removes_kills [OF l run True refl perm refl]
  from r(4) obtain L1 where L1: "islist (mem s') k L1" "set L1 = set L - set ?K" by blast
  have sX: "set ?X = set (filter (live_sig h) L)" using perm by (metis set_mset_mset)
  have dX: "distinct ?X"
    using islist_distinct [OF l] perm by (metis distinct_filter mset_eq_imp_distinct_iff)
  have KX: "set ?K \<subseteq> set ?X" by (rule kills_subset_all)
  have KL: "set ?K \<subseteq> set L" using KX sX by auto
  have rem: "set L - set L1 = set ?K" using L1(2) KL by auto
  have c: "\<forall>b \<in> set L1. content (mem s') b = content h b" using r(3) L1(2) by simp
  have p: "mem s' a = None \<and> live_sig h a \<and> (\<exists>b \<in> set L1. b \<noteq> a \<and> dup_of E h a b)"
    if "a \<in> set ?K" for a
  proof -
    have "\<exists>b \<in> set ?X. b \<notin> set ?K \<and> dup_of E h a b"
      by (rule kills_partner [OF _ dX that]) (rule dup_of_trans)
    then obtain b where b: "b \<in> set ?X" "b \<notin> set ?K" "dup_of E h a b" by blast
    have "b \<in> set L1" using b(1,2) sX L1(2) by auto
    moreover have "b \<noteq> a" using b(2) that by auto
    moreover have "live_sig h a" using that KX sX by auto
    ultimately show ?thesis using r(2) that b(3) by blast
  qed
  have "dups s' = card (set ?K)"
    using r(1) distinct_card [OF kills_distinct [OF dX, of "dup_of E h"]] by simp
  then have dk: "dups s' = card (set L - set L1)" unfolding rem .
  show ?thesis
  proof (intro exI [of _ L1] conjI)
    show "islist (mem s') k L1" by (rule L1(1))
    show "set L1 \<subseteq> set L" using L1(2) by auto
    show "\<forall>b \<in> set L1. content (mem s') b = content h b" by (rule c)
    show "\<forall>a \<in> set L - set L1.
            mem s' a = None \<and> live_sig h a \<and> (\<exists>b \<in> set L1. b \<noteq> a \<and> dup_of E h a b)"
      unfolding rem using p by blast
    show "dups s' = card (set L - set L1)" by (rule dk)
  qed
qed

text \<open>
  Lines 422 to 436: a signature that verifies over no node of the keyblock is counted as
  bad; the round changes nothing else but the cursor.
\<close>

lemma place_signature_bad:
  assumes l: "islist (mem s) (kb s) L" and c: "current_component s = Some c"
    and nc: "mem s c = Some nc" and nd: "mem s a = Some nd"
    and pkok: "openpgp_pk_test_algo E (pubkey_algo sig) = 0"
    and mdok: "openpgp_md_test_algo E (digest_algo sig) = 0"
    and nv: "\<not> verifies E (mem s) iss sig pk c"
    and nvs: "\<forall>t \<in> set L. \<not> verifies E (mem s) iss sig pk t"
  shows "place_signature E pk a (nextp nd) sig iss s
         = Some (Next (s\<lparr>bad_signature := bad_signature s + 1, n_prevp := Next_of a,
                          n_node := nextp nd\<rparr>))"
proof -
  have "find (verifies E (mem s) iss sig pk) (c # filter (\<lambda>t. t \<noteq> c) L) = None"
    using nv nvs by (simp add: find_None_iff)
  then have "loop (search_step E (mem s) (kb s) (current_component s) iss sig pk)
               (current_component s, False) = Some (Inr None)"
    using search_loop [OF l nc, of E iss sig pk] c by simp
  then show ?thesis using pkok mdok c nd by (simp add: place_signature_def advance_def)
qed

text \<open>
  C3.  A run on a well-formed keyblock, with \<^verbatim>\<open>qsort\<close> permuting the array, leaves a
  well-formed keyblock of nodes of the start.  Every node that is left holds the packet and
  the flags that it held.  Every node that is gone was a signature that is not deleted and
  has a duplicate under \<^verbatim>\<open>sig_comparison\<close> among the nodes that are left, it was released,
  and \<^verbatim>\<open>dups\<close> counts the nodes that are gone.  In the second pass, the round for a
  signature that passes the algorithm tests and verifies over no node of the keyblock adds
  one to the counter of bad signatures and moves the cursor; the keyblock stays as it is.
\<close>

theorem check_conserves_signatures:
  "(islist h k L \<and> key_check_all_keysigs E h k os oss = Some (Inr (ret, s'))
      \<and> mset (qsort E (sig_comparison_nodes E h) (filter (live_sig h) L))
          = mset (filter (live_sig h) L)
    \<longrightarrow> (\<exists>L1. islist (mem s') k L1 \<and> set L1 \<subseteq> set L
           \<and> (\<forall>b \<in> set L1. content (mem s') b = content h b)
           \<and> (\<forall>a \<in> set L - set L1.
                 mem s' a = None \<and> live_sig h a \<and> (\<exists>b \<in> set L1. b \<noteq> a \<and> dup_of E h a b))
           \<and> dups s' = card (set L - set L1)))
   \<and> (islist (mem s) (kb s) L2 \<and> current_component s = Some c \<and> mem s c = Some nc
      \<and> mem s a = Some nd
      \<and> openpgp_pk_test_algo E (pubkey_algo sig) = 0 \<and> openpgp_md_test_algo E (digest_algo sig) = 0
      \<and> \<not> verifies E (mem s) iss sig pk c \<and> (\<forall>t \<in> set L2. \<not> verifies E (mem s) iss sig pk t)
    \<longrightarrow> place_signature E pk a (nextp nd) sig iss s
         = Some (Next (s\<lparr>bad_signature := bad_signature s + 1, n_prevp := Next_of a,
                          n_node := nextp nd\<rparr>)))"
proof (intro conjI impI)
  assume "islist h k L \<and> key_check_all_keysigs E h k os oss = Some (Inr (ret, s'))
      \<and> mset (qsort E (sig_comparison_nodes E h) (filter (live_sig h) L))
          = mset (filter (live_sig h) L)"
  then show "\<exists>L1. islist (mem s') k L1 \<and> set L1 \<subseteq> set L
           \<and> (\<forall>b \<in> set L1. content (mem s') b = content h b)
           \<and> (\<forall>a \<in> set L - set L1.
                 mem s' a = None \<and> live_sig h a \<and> (\<exists>b \<in> set L1. b \<noteq> a \<and> dup_of E h a b))
           \<and> dups s' = card (set L - set L1)"
    using key_check_conserves [of h k L E os oss ret s'] by blast
next
  assume "islist (mem s) (kb s) L2 \<and> current_component s = Some c \<and> mem s c = Some nc
      \<and> mem s a = Some nd
      \<and> openpgp_pk_test_algo E (pubkey_algo sig) = 0 \<and> openpgp_md_test_algo E (digest_algo sig) = 0
      \<and> \<not> verifies E (mem s) iss sig pk c \<and> (\<forall>t \<in> set L2. \<not> verifies E (mem s) iss sig pk t)"
  then show "place_signature E pk a (nextp nd) sig iss s
         = Some (Next (s\<lparr>bad_signature := bad_signature s + 1, n_prevp := Next_of a,
                          n_node := nextp nd\<rparr>))"
    using place_signature_bad [of s L2 c nc a nd E sig iss pk] by blast
qed

lemma ex_kb_dup_bad_run:
  "(case key_check_all_keysigs ex_E (mk_heap 0 ex_kb_dup_bad) (Some 0) False False of
      Some (Inr (ret, s')) \<Rightarrow>
        islist (mem s') (Some 0) [0, 1, 3, 4] \<and> dups s' = 1 \<and> bad_signature s' = 1
    | _ \<Rightarrow> False)"
  by code_simp

lemma ex_kb_dup_bad_perm:
  "mset (qsort ex_E (sig_comparison_nodes ex_E (mk_heap 0 ex_kb_dup_bad))
           (filter (live_sig (mk_heap 0 ex_kb_dup_bad)) [0, 1, 2, 3, 4]))
   = mset (filter (live_sig (mk_heap 0 ex_kb_dup_bad)) [0, 1, 2, 3, 4])"
  by code_simp

lemma ex_kb_dup_bad_facts:
  "dup_of ex_E (mk_heap 0 ex_kb_dup_bad) 2 4
   \<and> \<not> dup_of ex_E (mk_heap 0 ex_kb_dup_bad) 2 3
   \<and> (\<forall>t \<in> set [0, 1, 2, 3, 4].
        \<not> verifies ex_E (mk_heap 0 ex_kb_dup_bad) ex_pk (mk_sig (1, 1) 0x13 55 [7]) ex_pk t)"
  by code_simp

theorem check_conserves_signatures_witness:
  "\<exists>ret s'. key_check_all_keysigs ex_E (mk_heap 0 ex_kb_dup_bad) (Some 0) False False
               = Some (Inr (ret, s'))
      \<and> islist (mem s') (Some 0) [0, 1, 3, 4]
      \<and> content (mem s') 3 = content (mk_heap 0 ex_kb_dup_bad) 3
      \<and> content (mem s') 4 = content (mk_heap 0 ex_kb_dup_bad) 4
      \<and> mem s' 2 = None \<and> dup_of ex_E (mk_heap 0 ex_kb_dup_bad) 2 4
      \<and> dups s' = 1 \<and> bad_signature s' = 1
      \<and> place_signature ex_E ex_pk 3 (Some 4) (mk_sig (1, 1) 0x13 55 [7]) ex_pk
           ((init_locals (mk_heap 0 ex_kb_dup_bad) (Some 0))
              \<lparr>n_node := Some 3, current_component := Some 1\<rparr>)
         = Some (Next ((init_locals (mk_heap 0 ex_kb_dup_bad) (Some 0))
              \<lparr>n_node := Some 3, current_component := Some 1, bad_signature := 1,
                n_prevp := Next_of 3, n_node := Some 4\<rparr>))"
proof -
  let ?h = "mk_heap 0 ex_kb_dup_bad"
  let ?L = "[0, 1, 2, 3, 4] :: addr list"
  let ?s = "(init_locals ?h (Some 0))\<lparr>n_node := Some 3, current_component := Some 1\<rparr>"
  let ?sig = "mk_sig (1, 1) 0x13 55 [7]"
  let ?nd = "mk_node (PKT_SIGNATURE ?sig) (Some 4)"
  let ?nc = "mk_node (PKT_USER_ID \<lparr>name = ''abc''\<rparr>) (Some 2)"
  from ex_kb_dup_bad_run obtain ret s' where
    run: "key_check_all_keysigs ex_E ?h (Some 0) False False = Some (Inr (ret, s'))"
    and fl: "islist (mem s') (Some 0) [0, 1, 3, 4]" and cnt: "dups s' = 1" "bad_signature s' = 1"
    by (auto split: option.split_asm sum.split_asm)
  have l: "islist ?h (Some 0) ?L" by (simp add: ex_kb_dup_bad_def mk_node_def)
  have st: "islist (mem ?s) (kb ?s) ?L \<and> current_component ?s = Some 1 \<and> mem ?s 1 = Some ?nc
      \<and> mem ?s 3 = Some ?nd
      \<and> openpgp_pk_test_algo ex_E (pubkey_algo ?sig) = 0
      \<and> openpgp_md_test_algo ex_E (digest_algo ?sig) = 0
      \<and> \<not> verifies ex_E (mem ?s) ex_pk ?sig ex_pk 1
      \<and> (\<forall>t \<in> set ?L. \<not> verifies ex_E (mem ?s) ex_pk ?sig ex_pk t)"
    using ex_kb_dup_bad_facts l
    by (simp add: init_locals_def ex_kb_dup_bad_def mk_node_def mk_sig_def ex_E_def ex_nsig_def)
  note inst = check_conserves_signatures
    [of ?h "Some 0" ?L ex_E False False ret s' ?s ?L 1 ?nc 3 ?nd ?sig ex_pk ex_pk]
  from inst l run ex_kb_dup_bad_perm obtain L1 where
    L1: "islist (mem s') (Some 0) L1"
    and c: "\<forall>b \<in> set L1. content (mem s') b = content ?h b"
    and g: "\<forall>a \<in> set ?L - set L1. mem s' a = None"
    by blast
  have e: "L1 = [0, 1, 3, 4]" using L1 fl by (rule islist_unique)
  have c3: "content (mem s') 3 = content ?h 3" and c4: "content (mem s') 4 = content ?h 4"
    using c e by simp_all
  have g2: "mem s' 2 = None" using g e by simp
  from inst st have
    "place_signature ex_E ex_pk 3 (nextp ?nd) ?sig ex_pk ?s
     = Some (Next (?s\<lparr>bad_signature := bad_signature ?s + 1, n_prevp := Next_of 3,
                      n_node := nextp ?nd\<rparr>))"
    by blast
  then have ps: "place_signature ex_E ex_pk 3 (Some 4) ?sig ex_pk ?s
     = Some (Next (?s\<lparr>bad_signature := 1, n_prevp := Next_of 3, n_node := Some 4\<rparr>))"
    by (simp add: mk_node_def init_locals_def)
  from run fl c3 c4 g2 cnt ps ex_kb_dup_bad_facts show ?thesis by blast
qed

section \<open>Signatures with a payload count of zero\<close>

text \<open>
  C9.  Two signature records with the same digest algorithm whose public-key algorithms
  both have a payload count of 0 compare equal, whatever their other fields hold.  When two
  nodes of a well-formed keyblock hold such signatures and are not deleted, the array is
  allocated and \<^verbatim>\<open>qsort\<close> returns it sorted under \<^verbatim>\<open>sig_comparison\<close>, a run releases
  at least one of the two nodes and counts a duplicate.
\<close>

theorem zero_payload_signatures_are_duplicates:
  "(digest_algo x = digest_algo y \<and> pubkey_get_nsig E (pubkey_algo x) = 0
      \<and> pubkey_get_nsig E (pubkey_algo y) = 0
    \<longrightarrow> sig_comparison E x y = 0)
   \<and> (islist h k L \<and> key_check_all_keysigs E h k os oss = Some (Inr (ret, s'))
      \<and> xtrycalloc E (int (length (filter (live_sig h) L)))
      \<and> mset (qsort E (sig_comparison_nodes E h) (filter (live_sig h) L))
          = mset (filter (live_sig h) L)
      \<and> sorted_wrt (\<lambda>a b. sig_comparison_nodes E h a b \<le> 0)
           (qsort E (sig_comparison_nodes E h) (filter (live_sig h) L))
      \<and> a \<in> set L \<and> b \<in> set L \<and> a \<noteq> b \<and> live_sig h a \<and> live_sig h b
      \<and> sig_at h a = Some x \<and> sig_at h b = Some y
      \<and> digest_algo x = digest_algo y \<and> pubkey_get_nsig E (pubkey_algo x) = 0
      \<and> pubkey_get_nsig E (pubkey_algo y) = 0
    \<longrightarrow> (mem s' a = None \<or> mem s' b = None) \<and> 0 < dups s')"
proof (intro conjI impI)
  assume "digest_algo x = digest_algo y \<and> pubkey_get_nsig E (pubkey_algo x) = 0
      \<and> pubkey_get_nsig E (pubkey_algo y) = 0"
  then show "sig_comparison E x y = 0" by (simp add: sig_comparison_eq_0)
next
  let ?X = "qsort E (sig_comparison_nodes E h) (filter (live_sig h) L)"
  let ?K = "kills (dup_of E h) ?X"
  assume w: "islist h k L \<and> key_check_all_keysigs E h k os oss = Some (Inr (ret, s'))
      \<and> xtrycalloc E (int (length (filter (live_sig h) L)))
      \<and> mset ?X = mset (filter (live_sig h) L)
      \<and> sorted_wrt (\<lambda>a b. sig_comparison_nodes E h a b \<le> 0) ?X
      \<and> a \<in> set L \<and> b \<in> set L \<and> a \<noteq> b \<and> live_sig h a \<and> live_sig h b
      \<and> sig_at h a = Some x \<and> sig_at h b = Some y
      \<and> digest_algo x = digest_algo y \<and> pubkey_get_nsig E (pubkey_algo x) = 0
      \<and> pubkey_get_nsig E (pubkey_algo y) = 0"
  then have l: "islist h k L"
    and run: "key_check_all_keysigs E h k os oss = Some (Inr (ret, s'))"
    and al: "xtrycalloc E (int (length (filter (live_sig h) L)))"
    and perm: "mset ?X = mset (filter (live_sig h) L)"
    and srt: "sorted_wrt (\<lambda>a b. sig_comparison_nodes E h a b \<le> 0) ?X"
    and ab: "a \<in> set L" "b \<in> set L" "a \<noteq> b" "live_sig h a" "live_sig h b"
    and xy: "sig_at h a = Some x" "sig_at h b = Some y"
    and z: "digest_algo x = digest_algo y" "pubkey_get_nsig E (pubkey_algo x) = 0"
      "pubkey_get_nsig E (pubkey_algo y) = 0"
    by simp_all
  have sX: "set ?X = set (filter (live_sig h) L)" using perm by (metis set_mset_mset)
  have sg: "\<forall>b \<in> set ?X. sig_at h b \<noteq> None" using sX live_sig_sig_at by auto
  have d: "dup_of E h a b" using xy z by (simp add: dup_of_def sig_comparison_eq_0)
  have inX: "a \<in> set ?X" "b \<in> set ?X" using ab sX by simp_all
  have "a \<in> set ?K \<or> b \<in> set ?K"
    using survivors_differ [OF srt sg inX(1) _ inX(2) _ ab(3)] d by blast
  moreover note r = key_check_removes_kills [OF l run al refl perm refl]
  ultimately have "mem s' a = None \<or> mem s' b = None" and "?K \<noteq> []"
    using r(2) by auto
  then show "mem s' a = None \<or> mem s' b = None" and "0 < dups s'" using r(1) by simp_all
qed

lemma ex_kb_unknown_algo_run:
  "(case key_check_all_keysigs ex_E (mk_heap 0 ex_kb_unknown_algo) (Some 0) False False of
      Some (Inr (ret, s')) \<Rightarrow> dups s' = 1 \<and> mem s' 2 = None \<and> mem s' 3 \<noteq> None
    | _ \<Rightarrow> False)"
  by code_simp

lemma ex_kb_unknown_algo_sorted:
  "mset (qsort ex_E (sig_comparison_nodes ex_E (mk_heap 0 ex_kb_unknown_algo))
           (filter (live_sig (mk_heap 0 ex_kb_unknown_algo)) [0, 1, 2, 3]))
   = mset (filter (live_sig (mk_heap 0 ex_kb_unknown_algo)) [0, 1, 2, 3])
   \<and> sorted_wrt (\<lambda>a b. sig_comparison_nodes ex_E (mk_heap 0 ex_kb_unknown_algo) a b \<le> 0)
        (qsort ex_E (sig_comparison_nodes ex_E (mk_heap 0 ex_kb_unknown_algo))
           (filter (live_sig (mk_heap 0 ex_kb_unknown_algo)) [0, 1, 2, 3]))"
  by code_simp

theorem zero_payload_signatures_are_duplicates_witness:
  "sig_comparison ex_E ((mk_sig (1, 1) 0x13 3 [5])\<lparr>pubkey_algo := 99\<rparr>)
      ((mk_sig (9, 9) 0x10 77 [8, 9])\<lparr>pubkey_algo := 98\<rparr>) = 0
   \<and> (\<exists>ret s'. key_check_all_keysigs ex_E (mk_heap 0 ex_kb_unknown_algo) (Some 0) False False
                 = Some (Inr (ret, s'))
          \<and> (mem s' 2 = None \<or> mem s' 3 = None) \<and> 0 < dups s' \<and> dups s' = 1)"
proof -
  let ?h = "mk_heap 0 ex_kb_unknown_algo"
  let ?L = "[0, 1, 2, 3] :: addr list"
  let ?x = "(mk_sig (1, 1) 0x13 3 [5])\<lparr>pubkey_algo := 99\<rparr>"
  let ?y = "(mk_sig (9, 9) 0x10 77 [8, 9])\<lparr>pubkey_algo := 98\<rparr>"
  from ex_kb_unknown_algo_run obtain ret s' where
    run: "key_check_all_keysigs ex_E ?h (Some 0) False False = Some (Inr (ret, s'))"
    and d1: "dups s' = 1"
    by (auto split: option.split_asm sum.split_asm)
  note inst = zero_payload_signatures_are_duplicates
    [of ?x ?y ex_E ?h "Some 0" ?L False False ret s' 2 3]
  have z: "digest_algo ?x = digest_algo ?y \<and> pubkey_get_nsig ex_E (pubkey_algo ?x) = 0
           \<and> pubkey_get_nsig ex_E (pubkey_algo ?y) = 0"
    by (simp add: mk_sig_def ex_E_def ex_nsig_def)
  have w: "islist ?h (Some 0) ?L
      \<and> xtrycalloc ex_E (int (length (filter (live_sig ?h) ?L)))
      \<and> (2::addr) \<in> set ?L \<and> (3::addr) \<in> set ?L \<and> (2::addr) \<noteq> 3
      \<and> live_sig ?h 2 \<and> live_sig ?h 3
      \<and> sig_at ?h 2 = Some ?x \<and> sig_at ?h 3 = Some ?y"
    by (simp add: ex_kb_unknown_algo_def mk_node_def ex_E_def live_sig_def sig_at_def
          is_signature_def)
  from inst z have c: "sig_comparison ex_E ?x ?y = 0" by blast
  have "(mem s' 2 = None \<or> mem s' 3 = None) \<and> 0 < dups s'"
    by (rule inst [THEN conjunct2, THEN mp]) (use run w z ex_kb_unknown_algo_sorted in simp)
  with c run d1 show ?thesis by blast
qed

section \<open>Two runs in a row\<close>

lemma last_not_killed:
  assumes "distinct xs" and "xs \<noteq> []"
  shows "last xs \<notin> set (kills eq xs)"
proof -
  have "set (kills eq xs) \<subseteq> set (butlast xs)" by (rule kills_subset)
  moreover have "last xs \<notin> set (butlast xs)"
    using assms by (metis append_butlast_last_id distinct_append not_distinct_conv_prefix
        in_set_conv_decomp list.set_intros(1) disjoint_iff)
  ultimately show ?thesis by blast
qed

text \<open>A run on a keyblock that holds no duplicate and no misplaced signature.\<close>

lemma key_check_stable:
  assumes l: "islist h k L" and k: "k = Some a0" and nd0: "h a0 = Some nd0"
    and pk: "pkt nd0 = PKT_PUBLIC_KEY pk"
    and ne: "filter (live_sig h) L \<noteq> []"
    and al: "xtrycalloc E (int (length (filter (live_sig h) L)))"
    and perm: "mset (qsort E (sig_comparison_nodes E h) (filter (live_sig h) L))
               = mset (filter (live_sig h) L)"
    and nodup: "\<And>u v. u \<in> set L \<Longrightarrow> v \<in> set L \<Longrightarrow> live_sig h u \<Longrightarrow> live_sig h v \<Longrightarrow> u \<noteq> v
                  \<Longrightarrow> \<not> dup_of E h u v"
    and nomis: "tally Misplaced (verdict_of E pk oss h L) (ctx_step os h) None L = 0"
    and keys: "list_all (key_ok pk h) L"
  shows "\<exists>s2. key_check_all_keysigs E h k os oss = Some (Inr (0, s2))
           \<and> mem s2 = h \<and> dups s2 = 0 \<and> reordered s2 = 0
           \<and> missing_issuer s2 = tally Missing_issuer (verdict_of E pk oss h L) (ctx_step os h) None L
           \<and> bad_signature s2 = tally Bad (verdict_of E pk oss h L) (ctx_step os h) None L
           \<and> missing_selfsig s2 = missing_selfsigs pk (node_pkts h L)"
proof -
  let ?i = "init_locals h k"
  let ?X = "qsort E (sig_comparison_nodes E h) (filter (live_sig h) L)"
  have mi: "mem ?i = h" "kb ?i = k" by (simp_all add: init_locals_def)
  have sX: "set ?X = set (filter (live_sig h) L)" using perm by (metis set_mset_mset)
  have dX: "distinct ?X"
    using islist_distinct [OF l] perm by (metis distinct_filter mset_eq_imp_distinct_iff)
  have K0: "kills (dup_of E h) ?X = []"
  proof (rule kills_Nil [OF _ dX])
    fix u v
    assume "u \<in> set ?X" "v \<in> set ?X" "u \<noteq> v"
    then show "\<not> dup_of E h u v" using sX nodup by auto
  qed
  from dedup_pass_run [of ?i L E ?X "kills (dup_of E h) ?X"] l ne al perm mi K0
  have d: "dedup_pass E ?i = Some (Inr (Some ?i, ?i))" by auto
  have cn: "current_component ?i = None" by (simp add: init_locals_def)
  from placement_pass_run [of ?i L E pk os oss] l cn nomis keys mi
  obtain sp L1 where p: "placement_pass E pk os oss ?i = Some (Inr (sp\<lparr>issuer := Issuer_null\<rparr>))"
    and i: "pinv E pk os oss h k L ?i L1 [] sp"
    by auto
  note f = pinv_final [OF i]
  have r0: "reordered sp = reordered ?i" using f(8) nomis by simp
  from f(9) [OF r0] have hs: "mem sp = h" "kb sp = k" by simp_all
  have e: "L1 = L" using f(1) l hs by (auto intro: islist_unique)
  let ?s2 = "sp\<lparr>issuer := Issuer_null\<rparr>"
  have "islist (mem ?s2) (kb ?s2) L" using l hs by simp
  from audit_pass_run [OF this, of pk] obtain s3 where
    au: "audit_pass pk ?s2 = Some (Inr s3)"
    and ms: "missing_selfsig s3 = missing_selfsig ?s2 + missing_selfsigs pk (node_pkts (mem ?s2) L)"
    and af: "audit_frame ?s2 s3"
    by blast
  note g = audit_frame_fields [OF af]
  have md: "modified s3 = 0" using g(7) f(11) r0 by (simp add: init_locals_def)
  have run: "key_check_all_keysigs E h k os oss
             = Some (Inr (0, s3\<lparr>tty := tty s3 @ summary oss s3\<rparr>))"
    using k nd0 pk d p au md by (simp add: key_check_all_keysigs_def)
  let ?r = "s3\<lparr>tty := tty s3 @ summary oss s3\<rparr>"
  have "mem ?r = h" using g(1) hs by simp
  moreover have "dups ?r = 0" using g(3) f(10) by (simp add: init_locals_def)
  moreover have "reordered ?r = 0" using g(5) r0 by (simp add: init_locals_def)
  moreover have "missing_issuer ?r
      = tally Missing_issuer (verdict_of E pk oss h L) (ctx_step os h) None L"
    using g(4) f(5) e by (simp add: init_locals_def)
  moreover have "bad_signature ?r = tally Bad (verdict_of E pk oss h L) (ctx_step os h) None L"
    using g(6) f(6) e by (simp add: init_locals_def)
  moreover have "missing_selfsig ?r = missing_selfsigs pk (node_pkts h L)"
    using ms f(12) hs by (simp add: init_locals_def)
  ultimately show ?thesis using run by blast
qed

lemma sortsD:
  assumes "sorts E h L"
  shows "xtrycalloc E (int (length (filter (live_sig h) L)))"
    and "mset (qsort E (sig_comparison_nodes E h) (filter (live_sig h) L))
         = mset (filter (live_sig h) L)"
    and "sorted_wrt (\<lambda>a b. sig_comparison_nodes E h a b \<le> 0)
           (qsort E (sig_comparison_nodes E h) (filter (live_sig h) L))"
  using assms by (simp_all add: sorts_def Let_def)

lemma content_Some_transfer:
  assumes "content h' a = content h a" and "h a = Some nd"
  shows "\<exists>nd'. h' a = Some nd' \<and> pkt nd' = pkt nd"
  using assms by (cases "h' a") (auto simp: content_def)

text \<open>The second of two runs in a row.\<close>

lemma second_run:
  assumes l: "islist h k L"
    and run: "key_check_all_keysigs E h k os oss = Some (Inr (ret, s1))"
    and so: "sorts E h L" and l1: "islist (mem s1) k L1" and so1: "sorts E (mem s1) L1"
  shows "\<exists>s2. key_check_all_keysigs E (mem s1) k os oss = Some (Inr (0, s2))
           \<and> mem s2 = mem s1 \<and> dups s2 = 0 \<and> reordered s2 = 0
           \<and> missing_issuer s2 = missing_issuer s1 \<and> bad_signature s2 = bad_signature s1
           \<and> missing_selfsig s2 = missing_selfsig s1"
proof (cases "filter (live_sig h) L = []")
  case True
  have "dedup_pass E (init_locals h k) = Some (Inr (None, init_locals h k))"
    by (rule dedup_pass_none [of _ L]) (use l True in \<open>simp_all add: init_locals_def\<close>)
  from key_check_early [OF run this] have e: "ret = 0" "s1 = init_locals h k" by simp_all
  then have "mem s1 = h" "dups s1 = 0" "reordered s1 = 0" by (simp_all add: init_locals_def)
  then show ?thesis using run e(1) by auto
next
  case ne: False
  let ?X = "qsort E (sig_comparison_nodes E h) (filter (live_sig h) L)"
  let ?K = "kills (dup_of E h) ?X"
  let ?L0 = "filter (\<lambda>b. b \<notin> set ?K) L"
  note s = sortsD [OF so] and t = sortsD [OF so1]
  obtain a0 nd0 pk sd sp s3 L2 where
    k: "k = Some a0" and nd0: "h a0 = Some nd0" and pk: "pkt nd0 = PKT_PUBLIC_KEY pk"
    and dc: "\<forall>b. b \<notin> set ?K \<longrightarrow> content (mem sd) b = content h b"
    and df: "dedup_frame (init_locals h k) sd"
    and i: "pinv E pk os oss (mem sd) k ?L0 sd L2 [] sp"
    and ks: "kb sp = k"
    and af: "audit_frame (sp\<lparr>issuer := Issuer_null\<rparr>) s3"
    and ms: "missing_selfsig s3 = missing_selfsigs pk (node_pkts (mem sp) L2)"
    and s1: "s1 = s3\<lparr>tty := tty s3 @ summary oss s3\<rparr>"
    by (rule key_check_run [OF l run ne s(1) refl s(2) refl]) (rule that; assumption)
  note f = pinv_final [OF i]
  note g = audit_frame_fields [OF af]
  note z = dedup_frame_init [OF df]
  let ?h1 = "mem s1"
  have m: "?h1 = mem sp" using s1 g(1) by simp
  have c1: "content ?h1 = content (mem sd)" using f(4) m by simp
  have e: "L1 = L2" using l1 f(1) ks m by (auto intro: islist_unique)
  have sL: "set L1 = set ?L0" using f(2) e by simp
  have sX: "set ?X = set (filter (live_sig h) L)" using s(2) by (metis set_mset_mset)
  have dX: "distinct ?X"
    using islist_distinct [OF l] s(2) by (metis distinct_filter mset_eq_imp_distinct_iff)
  have KX: "set ?K \<subseteq> set ?X" by (rule kills_subset_all)
  have ch: "content ?h1 b = content h b" if "b \<notin> set ?K" for b
    using that dc c1 by simp
  have a0K: "a0 \<notin> set ?K"
    using KX sX nd0 pk by (auto simp: live_sig_def is_signature_def)
  from content_Some_transfer [OF ch [OF a0K] nd0] obtain nd1 where
    nd1: "?h1 a0 = Some nd1" "pkt nd1 = PKT_PUBLIC_KEY pk" using pk by auto
  have Xne: "?X \<noteq> []" using ne sX by auto
  have lastX: "last ?X \<in> set ?X" "last ?X \<notin> set ?K"
    using Xne last_not_killed [OF dX Xne] by simp_all
  have ne1: "filter (live_sig ?h1) L1 \<noteq> []"
  proof -
    have "last ?X \<in> set L1" using lastX sX sL by auto
    moreover have "live_sig ?h1 (last ?X)"
      using live_sig_content [OF ch [OF lastX(2)]] lastX(1) sX by simp
    ultimately show ?thesis by (auto simp: filter_empty_conv)
  qed
  have sg: "\<forall>b \<in> set ?X. sig_at h b \<noteq> None" using sX live_sig_sig_at by auto
  have nodup: "\<not> dup_of E ?h1 u v"
    if "u \<in> set L1" "v \<in> set L1" "live_sig ?h1 u" "live_sig ?h1 v" "u \<noteq> v" for u v
  proof -
    have uK: "u \<notin> set ?K" "v \<notin> set ?K" "u \<in> set L" "v \<in> set L" using that(1,2) sL by auto
    have "live_sig h u" "live_sig h v"
      using that(3,4) live_sig_content [OF ch [OF uK(1)]] live_sig_content [OF ch [OF uK(2)]]
      by simp_all
    then have "u \<in> set ?X" "v \<in> set ?X" using uK sX by simp_all
    from survivors_differ [OF s(3) sg this(1) uK(1) this(2) uK(2) that(5)]
    show ?thesis using dup_of_content [OF ch [OF uK(1)] ch [OF uK(2)], of E] by simp
  qed
  have V: "verdict_of E pk oss ?h1 L1 = verdict_of E pk oss (mem sd) ?L0"
    by (rule verdict_of_content [OF c1 sL])
  have C: "ctx_step os ?h1 = ctx_step os (mem sd)" by (rule ctx_step_content [OF c1])
  have nomis: "tally Misplaced (verdict_of E pk oss ?h1 L1) (ctx_step os ?h1) None L1 = 0"
    unfolding V C unfolding e by (rule f(7))
  have keys: "list_all (key_ok pk ?h1) L1"
    unfolding key_ok_content [OF c1] unfolding e by (rule f(13))
  from key_check_stable [OF l1 k nd1 ne1 t(1) t(2) nodup nomis keys]
  obtain s2 where r: "key_check_all_keysigs E ?h1 k os oss = Some (Inr (0, s2))"
    "mem s2 = ?h1" "dups s2 = 0" "reordered s2 = 0"
    "missing_issuer s2
       = tally Missing_issuer (verdict_of E pk oss ?h1 L1) (ctx_step os ?h1) None L1"
    "bad_signature s2 = tally Bad (verdict_of E pk oss ?h1 L1) (ctx_step os ?h1) None L1"
    "missing_selfsig s2 = missing_selfsigs pk (node_pkts ?h1 L1)"
    by blast
  have "missing_issuer s2 = missing_issuer s1"
    using r(5) f(5) z(2) g(4) s1 unfolding V C unfolding e by simp
  moreover have "bad_signature s2 = bad_signature s1"
    using r(6) f(6) z(3) g(6) s1 unfolding V C unfolding e by simp
  moreover have "missing_selfsig s2 = missing_selfsig s1"
    using r(7) ms s1 m e by simp
  ultimately show ?thesis using r(1,2,3,4) by blast
qed

text \<open>
  C4, as amended.  Take a well-formed keyblock on which a run returns, and let the array be
  allocated and \<^verbatim>\<open>qsort\<close> return it sorted under \<^verbatim>\<open>sig_comparison\<close> in this run
  and in the next.  Then a second run on the keyblock that the first run leaves returns 0,
  removes no duplicate, reorders nothing and leaves the keyblock as it is, and its counters
  of missing issuers, of bad signatures and of missing self-signatures are those of the
  first run.
\<close>

theorem second_run_is_stable:
  assumes "islist h k L" and "key_check_all_keysigs E h k os oss = Some (Inr (ret, s1))"
    and "sorts E h L" and "islist (mem s1) k L1" and "sorts E (mem s1) L1"
  shows "\<exists>s2. run_twice E h k os oss = Some (Inr (0, s2))
           \<and> mem s2 = mem s1 \<and> dups s2 = 0 \<and> reordered s2 = 0
           \<and> missing_issuer s2 = missing_issuer s1 \<and> bad_signature s2 = bad_signature s1
           \<and> missing_selfsig s2 = missing_selfsig s1"
proof -
  have "run_twice E h k os oss = key_check_all_keysigs E (mem s1) k os oss"
    using assms(2) by (simp add: run_twice_def)
  then show ?thesis using second_run [OF assms] by simp
qed

lemma ex_kb_mixed_run:
  "(case key_check_all_keysigs ex_E (mk_heap 0 ex_kb_mixed) (Some 0) False False of
      Some (Inr (ret, s1)) \<Rightarrow>
        ret = 1 \<and> dups s1 = 1 \<and> reordered s1 = 1 \<and> missing_issuer s1 = 1
        \<and> bad_signature s1 = 1 \<and> islist (mem s1) (Some 0) [0, 2, 1, 3, 5]
        \<and> sorts ex_E (mem s1) [0, 2, 1, 3, 5]
    | _ \<Rightarrow> False)"
  by code_simp

lemma ex_kb_mixed_sorts: "sorts ex_E (mk_heap 0 ex_kb_mixed) [0, 1, 2, 3, 4, 5]"
  by code_simp

theorem second_run_is_stable_witness:
  "\<exists>s1 s2. key_check_all_keysigs ex_E (mk_heap 0 ex_kb_mixed) (Some 0) False False
               = Some (Inr (1, s1))
      \<and> dups s1 = 1 \<and> reordered s1 = 1
      \<and> islist (mem s1) (Some 0) [0, 2, 1, 3, 5]
      \<and> run_twice ex_E (mk_heap 0 ex_kb_mixed) (Some 0) False False = Some (Inr (0, s2))
      \<and> mem s2 = mem s1 \<and> dups s2 = 0 \<and> reordered s2 = 0
      \<and> missing_issuer s2 = 1 \<and> bad_signature s2 = 1"
proof -
  let ?h = "mk_heap 0 ex_kb_mixed"
  from ex_kb_mixed_run obtain ret s1 where
    run: "key_check_all_keysigs ex_E ?h (Some 0) False False = Some (Inr (ret, s1))"
    and r: "ret = 1" "dups s1 = 1" "reordered s1 = 1" "missing_issuer s1 = 1"
      "bad_signature s1 = 1"
    and l1: "islist (mem s1) (Some 0) [0, 2, 1, 3, 5]"
    and so1: "sorts ex_E (mem s1) [0, 2, 1, 3, 5]"
    by (auto split: option.split_asm sum.split_asm)
  have l: "islist ?h (Some 0) [0, 1, 2, 3, 4, 5]" by (simp add: ex_kb_mixed_def mk_node_def)
  from second_run_is_stable [OF l run ex_kb_mixed_sorts l1 so1] obtain s2 where
    "run_twice ex_E ?h (Some 0) False False = Some (Inr (0, s2))"
    "mem s2 = mem s1" "dups s2 = 0" "reordered s2 = 0"
    "missing_issuer s2 = missing_issuer s1" "bad_signature s2 = bad_signature s1"
    by blast
  then show ?thesis using run r l1 by auto
qed

text \<open>
  The claim as stated fails: on the keyblock with a signature that verifies over nothing
  and a signature whose issuer cannot be fetched, the second run counts one missing issuer
  and one bad signature again; the primary key has no self-signature in either run.
\<close>

theorem second_run_counters_not_zero:
  "counters (run_twice ex_E (mk_heap 0 ex_kb_bad) (Some 0) False False)
   = Some (0, 0, 1, 0, 1, 1)"
  by code_simp

end
